theory Spec2Isabelle
  imports Main "HOL-Library.Multiset"
begin

section \<open>Strings, positions and multimaps\<close>

text \<open>
  A \<open>std::string\<close> is a list of 8-bit characters and may contain NUL.  A
  \<open>size_t\<close> position is a natural number below \<open>2 ^ 64\<close>; \<open>std::string::npos\<close> is
  the largest such value, and subtraction of two positions wraps around.  Every
  \<open>std::string\<close> is shorter than \<open>npos\<close>, so an index below the size of a string
  never equals \<open>npos\<close> and \<open>c + 1\<close> never wraps for such an index.
\<close>

definition npos :: nat where
  "npos = 2 ^ 64 - 1"

definition size_sub :: "nat \<Rightarrow> nat \<Rightarrow> nat" where
  "size_sub a b = (a + 2 ^ 64 - b) mod 2 ^ 64"

text \<open>
  \<open>s.substr(pos, n)\<close> for \<open>pos \<le> s.size()\<close>, the only case that occurs: each call
  below is made at a position that a guard or a preceding search has put inside
  the string.
\<close>

definition substr :: "string \<Rightarrow> nat \<Rightarrow> nat \<Rightarrow> string" where
  "substr s pos n = take n (drop pos s)"

text \<open>\<open>s.find(ch, pos)\<close>: the first index at or after \<open>pos\<close> holding \<open>ch\<close>, else \<open>npos\<close>.\<close>

function find_char :: "string \<Rightarrow> char \<Rightarrow> nat \<Rightarrow> nat" where
  "find_char s ch pos =
     (if pos < length s then (if s ! pos = ch then pos else find_char s ch (pos + 1))
      else npos)"
  by pat_completeness auto
termination
  by (relation "measure (\<lambda>(s, ch, pos). length s - pos)") auto

text \<open>The text after the first occurrence of a character (empty when there is none).\<close>

definition after_first :: "char \<Rightarrow> string \<Rightarrow> string" where
  "after_first d s = drop 1 (dropWhile (\<lambda>c. c \<noteq> d) s)"

text \<open>
  A \<open>CaseInsensitiveMultimap\<close> keeps every emplaced pair, duplicates included,
  with the key as it was given.  It is modelled by the list of its entries in
  the order of insertion; the container's own iteration order is unspecified,
  so statements about its contents compare the entries as a multiset.
\<close>

type_synonym multimap = "(string \<times> string) list"

section \<open>Percent\<close>

definition hex_chars :: string where
  "hex_chars = ''0123456789ABCDEF''"

text \<open>
  The second branch of the encoder's test.  The comparisons are on character
  codes; a character above 127 fails both range tests whether \<open>char\<close> is signed
  or not.
\<close>

definition reserved :: "char \<Rightarrow> bool" where
  "reserved chr \<longleftrightarrow>
     chr = CHR ''!'' \<or> chr = CHR ''#'' \<or> chr = CHR ''$'' \<or>
     ((of_char (CHR ''&'') :: nat) \<le> of_char chr \<and> (of_char chr :: nat) \<le> of_char (CHR '','')) \<or>
     ((of_char (CHR ''/'') :: nat) \<le> of_char chr \<and> (of_char chr :: nat) \<le> of_char (CHR '';'')) \<or>
     chr = CHR ''='' \<or> chr = CHR ''?'' \<or> chr = CHR ''@'' \<or> chr = CHR ''['' \<or> chr = CHR '']''"

fun encode_loop :: "string \<Rightarrow> string \<Rightarrow> string" where
  "encode_loop [] result = result"
| "encode_loop (chr # rest) result =
     (if chr = CHR '' '' then encode_loop rest (result @ ''+'')
      else if reserved chr then
        encode_loop rest
          (result @ ''%'' @ [hex_chars ! (of_char chr div 16), hex_chars ! (of_char chr mod 16)])
      else encode_loop rest (result @ [chr]))"

definition Percent_encode :: "string \<Rightarrow> string" where
  "Percent_encode v = encode_loop v []"

text \<open>
  \<open>strtol(hex.c_str(), nullptr, 16)\<close>: the C string ends at the first NUL; leading
  white space, one optional sign and an optional \<open>0x\<close> prefix (taken only when a
  hexadecimal digit follows it) are skipped; the longest run of hexadecimal
  digits is the value, and it is 0 when there is none.  The argument has two
  characters here, so the value stays far from the range of \<open>long\<close>.
\<close>

definition isspace :: "char \<Rightarrow> bool" where
  "isspace c \<longleftrightarrow> c = CHR '' '' \<or> (9 \<le> (of_char c :: nat) \<and> (of_char c :: nat) \<le> 13)"

definition hex_digit :: "char \<Rightarrow> int option" where
  "hex_digit c =
     (let n = (of_char c :: nat) in
      if 48 \<le> n \<and> n \<le> 57 then Some (int n - 48)
      else if 65 \<le> n \<and> n \<le> 70 then Some (int n - 55)
      else if 97 \<le> n \<and> n \<le> 102 then Some (int n - 87)
      else None)"

fun strtol_digits :: "int \<Rightarrow> string \<Rightarrow> int" where
  "strtol_digits acc [] = acc"
| "strtol_digits acc (c # cs) =
     (case hex_digit c of None \<Rightarrow> acc | Some d \<Rightarrow> strtol_digits (16 * acc + d) cs)"

definition strtol16 :: "string \<Rightarrow> int" where
  "strtol16 s =
     (let s0 = takeWhile (\<lambda>c. c \<noteq> CHR 0x00) s;
          s1 = dropWhile isspace s0;
          neg = (s1 \<noteq> [] \<and> hd s1 = CHR ''-'');
          s2 = (if s1 \<noteq> [] \<and> (hd s1 = CHR ''-'' \<or> hd s1 = CHR ''+'') then tl s1 else s1);
          s3 = (case s2 of
                  z # x # h # r \<Rightarrow>
                    if z = CHR ''0'' \<and> (x = CHR ''x'' \<or> x = CHR ''X'') \<and> hex_digit h \<noteq> None
                    then h # r else s2
                | _ \<Rightarrow> s2);
          v = strtol_digits 0 s3
      in if neg then - v else v)"

text \<open>
  The decoder's loop over \<open>i\<close>; \<open>i + 2 + 1\<close> is the \<open>i += 2\<close> of the body followed by
  the \<open>++i\<close> of the loop.  The cast to \<open>char\<close> keeps the low eight bits.
\<close>

function decode_loop :: "string \<Rightarrow> nat \<Rightarrow> string \<Rightarrow> string" where
  "decode_loop v i result =
     (if i < length v then
        (if v ! i = CHR ''%'' \<and> i + 2 < length v then
           decode_loop v (i + 2 + 1) (result @ [char_of (strtol16 (substr v (i + 1) 2))])
         else if v ! i = CHR ''+'' then decode_loop v (i + 1) (result @ '' '')
         else decode_loop v (i + 1) (result @ [v ! i]))
      else result)"
  by pat_completeness auto
termination
  by (relation "measure (\<lambda>(v, i, result). length v - i)") auto

definition Percent_decode :: "string \<Rightarrow> string" where
  "Percent_decode v = decode_loop v 0 []"

section \<open>QueryString\<close>

text \<open>
  \<open>create\<close> walks the fields in the container's iteration order, which is the
  order of the argument list here.
\<close>

fun create_loop :: "multimap \<Rightarrow> bool \<Rightarrow> string \<Rightarrow> string" where
  "create_loop [] first result = result"
| "create_loop (field # fields) first result =
     create_loop fields False
       (result @ (if \<not> first then ''&'' else '''') @ fst field @ ''='' @ Percent_encode (snd field))"

definition QueryString_create :: "multimap \<Rightarrow> string" where
  "QueryString_create fields = create_loop fields True []"

text \<open>One field as \<open>create\<close> writes it: the key as it is, \<open>=\<close>, the encoded value.\<close>

definition field_segment :: "string \<times> string \<Rightarrow> string" where
  "field_segment field = fst field @ ''='' @ Percent_encode (snd field)"

function parse_loop ::
  "string \<Rightarrow> nat \<Rightarrow> nat \<Rightarrow> nat \<Rightarrow> nat \<Rightarrow> multimap \<Rightarrow> nat \<times> nat \<times> nat \<times> multimap" where
  "parse_loop qs c name_pos name_end_pos value_pos result =
     (if c < length qs then
        (if qs ! c = CHR ''&'' then
           (let name = substr qs name_pos
                         (size_sub (if name_end_pos = npos then c else name_end_pos) name_pos);
                result' =
                  (if name \<noteq> [] then
                     (let value = (if value_pos = npos then []
                                   else substr qs value_pos (size_sub c value_pos))
                      in result @ [(name, Percent_decode value)])
                   else result)
            in parse_loop qs (c + 1) (c + 1) npos npos result')
         else if qs ! c = CHR ''='' then parse_loop qs (c + 1) name_pos c (c + 1) result
         else parse_loop qs (c + 1) name_pos name_end_pos value_pos result)
      else (name_pos, name_end_pos, value_pos, result))"
  by pat_completeness auto
termination
  by (relation "measure (\<lambda>(qs, c, name_pos, name_end_pos, value_pos, result). length qs - c)") auto

text \<open>The code after the loop, which handles the segment that no \<open>&\<close> ends.\<close>

definition parse_tail :: "string \<Rightarrow> nat \<times> nat \<times> nat \<times> multimap \<Rightarrow> multimap" where
  "parse_tail query_string st =
     (case st of
        (name_pos, name_end_pos, value_pos, result) \<Rightarrow>
          if name_pos < length query_string then
            (let name = substr query_string name_pos (size_sub name_end_pos name_pos) in
             if name \<noteq> [] then
               (let value = (if value_pos \<ge> length query_string then []
                             else substr query_string value_pos npos)
                in result @ [(name, Percent_decode value)])
             else result)
          else result)"

definition QueryString_parse :: "string \<Rightarrow> multimap" where
  "QueryString_parse query_string =
     (if query_string = [] then []
      else parse_tail query_string (parse_loop query_string 0 0 npos npos []))"

text \<open>
  The reading of a query string by segments, for comparison with the scanner:
  the string is cut at every \<open>&\<close>, each segment is cut at its last \<open>=\<close>, and a
  segment whose name is empty gives no entry.
\<close>

fun split_on :: "char \<Rightarrow> string \<Rightarrow> string list" where
  "split_on d [] = [[]]"
| "split_on d (c # cs) =
     (if c = d then [] # split_on d cs
      else (case split_on d cs of seg # segs \<Rightarrow> (c # seg) # segs | [] \<Rightarrow> [[c]]))"

definition before_last :: "char \<Rightarrow> string \<Rightarrow> string" where
  "before_last d seg = (if d \<in> set seg then rev (tl (dropWhile (\<lambda>c. c \<noteq> d) (rev seg))) else seg)"

definition after_last :: "char \<Rightarrow> string \<Rightarrow> string" where
  "after_last d seg = (if d \<in> set seg then rev (takeWhile (\<lambda>c. c \<noteq> d) (rev seg)) else [])"

definition segment_entry :: "string \<Rightarrow> string \<times> string" where
  "segment_entry seg = (before_last (CHR ''='') seg, Percent_decode (after_last (CHR ''='') seg))"

definition parse_segments :: "string \<Rightarrow> multimap" where
  "parse_segments qs =
     map segment_entry (filter (\<lambda>seg. before_last (CHR ''='') seg \<noteq> []) (split_on (CHR ''&'') qs))"


section \<open>Input streams\<close>

text \<open>
  What the parsers see of a \<open>std::istream\<close>: the characters not yet read and
  whether the stream is still good (no \<open>eofbit\<close>, \<open>failbit\<close> or \<open>badbit\<close>).

  \<open>getline(stream, line)\<close> first builds a sentry.  On a stream that is not good
  the sentry fails and \<open>line\<close> is left as it was.  Otherwise \<open>line\<close> is erased and
  characters are moved into it up to the next line feed, which is consumed and
  not stored.  When the input ends before a line feed, \<open>line\<close> holds what was
  left and the stream is no longer good.
\<close>

record istream =
  pending :: string
  good :: bool

definition getline :: "istream \<Rightarrow> string \<Rightarrow> istream \<times> string" where
  "getline stream line =
     (if \<not> good stream then (stream, line)
      else if CHR 0x0A \<in> set (pending stream) then
        (stream\<lparr>pending := tl (dropWhile (\<lambda>c. c \<noteq> CHR 0x0A) (pending stream))\<rparr>,
         takeWhile (\<lambda>c. c \<noteq> CHR 0x0A) (pending stream))
      else (stream\<lparr>pending := [], good := False\<rparr>, pending stream))"

definition istream_of :: "string \<Rightarrow> istream" where
  "istream_of s = \<lparr>pending = s, good = True\<rparr>"

section \<open>HttpHeader\<close>

text \<open>
  \<open>header_entry\<close> is the body of the \<open>while\<close> loop of \<open>HttpHeader::parse\<close> up to
  the next \<open>getline\<close>, and \<open>header_loop\<close> is the loop.  It ends only at a line
  without a colon, and a \<open>getline\<close> on a stream that is not good leaves the line
  as it is, so the loop need not end: not returning is the value \<open>None\<close>.
\<close>

definition header_entry :: "string \<Rightarrow> nat \<Rightarrow> multimap \<Rightarrow> multimap" where
  "header_entry line param_end result =
     (let value_start = param_end + 1 in
      if value_start < length line then
        (let value_start = (if line ! value_start = CHR '' '' then value_start + 1 else value_start)
         in if value_start < length line then
              result @ [(substr line 0 param_end,
                         substr line value_start (size_sub (size_sub (length line) value_start) 1))]
            else result)
      else result)"

partial_function (option) header_loop ::
  "istream \<Rightarrow> string \<Rightarrow> multimap \<Rightarrow> (istream \<times> multimap) option" where
  [code]: "header_loop stream line result =
     (let param_end = find_char line (CHR '':'') 0 in
      if param_end \<noteq> npos then
        (let result' = header_entry line param_end result in
         case getline stream line of (stream', line') \<Rightarrow> header_loop stream' line' result')
      else Some (stream, result))"

definition HttpHeader_parse :: "istream \<Rightarrow> (istream \<times> multimap) option" where
  "HttpHeader_parse stream =
     (case getline stream [] of (stream', line) \<Rightarrow> header_loop stream' line [])"

text \<open>
  The header block read line by line, for comparison with the loop.  The lines
  of an input are its pieces between line feeds, the piece after the last line
  feed included; \<open>remaining ls\<close> is the stream that still holds the lines \<open>ls\<close>
  (not good once the last line has been taken out).  \<open>header_field\<close> is what one
  line with a colon contributes: the name before the first colon and the text
  after it, without one leading space and without its last character, and no
  entry when nothing is left after the colon and the space.
\<close>

definition header_field :: "string \<Rightarrow> multimap" where
  "header_field line =
     (let name = takeWhile (\<lambda>c. c \<noteq> CHR '':'') line;
          after = after_first (CHR '':'') line;
          v = (if after \<noteq> [] \<and> hd after = CHR '' '' then tl after else after)
      in if v = [] then [] else [(name, butlast v)])"

fun join_lines :: "string list \<Rightarrow> string" where
  "join_lines [] = []"
| "join_lines [l] = l"
| "join_lines (l # ls) = l @ CHR 0x0A # join_lines ls"

definition remaining :: "string list \<Rightarrow> istream" where
  "remaining ls =
     (if ls = [] then \<lparr>pending = [], good = False\<rparr> else \<lparr>pending = join_lines ls, good = True\<rparr>)"

definition has_colon :: "string \<Rightarrow> bool" where
  "has_colon l \<longleftrightarrow> CHR '':'' \<in> set l"

section \<open>RequestMessage\<close>

text \<open>The out-parameters of \<open>RequestMessage::parse\<close>, as the caller passes them in.\<close>

record request =
  req_method :: string
  req_path :: string
  req_query_string :: string
  req_version :: string
  req_header :: multimap

text \<open>
  The \<open>for\<close> loop over the target; it returns \<open>query_start\<close> and
  \<open>path_and_query_string_end\<close>.
\<close>

function target_loop :: "string \<Rightarrow> nat \<Rightarrow> nat \<Rightarrow> nat \<times> nat" where
  "target_loop line i query_start =
     (if i < length line then
        (if line ! i = CHR ''?'' \<and> i + 1 < length line then target_loop line (i + 1) (i + 1)
         else if line ! i = CHR '' '' then (query_start, i)
         else target_loop line (i + 1) query_start)
      else (query_start, npos))"
  by pat_completeness auto
termination
  by (relation "measure (\<lambda>(line, i, query_start). length line - i)") auto

definition RequestMessage_parse ::
  "istream \<Rightarrow> request \<Rightarrow> (bool \<times> istream \<times> request) option" where
  "RequestMessage_parse stream0 out0 =
     (let out1 = out0\<lparr>req_header := []\<rparr> in
      case getline stream0 [] of (stream, line) \<Rightarrow>
      let method_end = find_char line (CHR '' '') 0 in
      if method_end \<noteq> npos then
        (let out2 = out1\<lparr>req_method := substr line 0 method_end\<rparr> in
         case target_loop line (method_end + 1) npos of
           (query_start, path_and_query_string_end) \<Rightarrow>
         if path_and_query_string_end \<noteq> npos then
           (let out3 =
                  (if query_start \<noteq> npos then
                     out2\<lparr>req_path := substr line (method_end + 1)
                                        (size_sub (size_sub query_start method_end) 2),
                          req_query_string := substr line query_start
                                        (size_sub path_and_query_string_end query_start)\<rparr>
                   else
                     out2\<lparr>req_path := substr line (method_end + 1)
                                        (size_sub (size_sub path_and_query_string_end method_end) 1)\<rparr>);
                protocol_end = find_char line (CHR ''/'') (path_and_query_string_end + 1)
            in
            if protocol_end \<noteq> npos then
              (if substr line (path_and_query_string_end + 1)
                    (size_sub (size_sub protocol_end path_and_query_string_end) 1) \<noteq> ''HTTP''
               then Some (False, stream, out3)
               else
                 (let out4 = out3\<lparr>req_version := substr line (protocol_end + 1)
                                       (size_sub (size_sub (length line) protocol_end) 2)\<rparr>
                  in case HttpHeader_parse stream of
                       None \<Rightarrow> None
                     | Some (stream', h) \<Rightarrow> Some (True, stream', out4\<lparr>req_header := h\<rparr>)))
            else Some (False, stream, out3))
         else Some (False, stream, out2))
      else Some (False, stream, out1))"

text \<open>
  The four ways a request line can be malformed, read off the line itself: the
  text after the first space, the text after the second space, and the text of
  the latter up to its first slash.
\<close>

definition bad_request_line :: "string \<Rightarrow> bool" where
  "bad_request_line line \<longleftrightarrow>
     CHR '' '' \<notin> set line \<or>
     CHR '' '' \<notin> set (after_first (CHR '' '') line) \<or>
     CHR ''/'' \<notin> set (after_first (CHR '' '') (after_first (CHR '' '') line)) \<or>
     takeWhile (\<lambda>c. c \<noteq> CHR ''/'') (after_first (CHR '' '') (after_first (CHR '' '') line)) \<noteq> ''HTTP''"

text \<open>The first line of a stream, as \<open>getline\<close> on an empty string variable delivers it.\<close>

definition first_line :: "istream \<Rightarrow> string" where
  "first_line stream = snd (getline stream [])"

text \<open>
  The request line read by its parts: the method up to the first space, the
  target up to the second, cut at its last \<open>?\<close> when it has one, then \<open>HTTP\<close>, a
  slash and the version, which loses its last character.
\<close>

definition request_line_fields :: "string \<Rightarrow> request \<Rightarrow> bool \<times> request" where
  "request_line_fields line out0 =
     (let out1 = out0\<lparr>req_header := []\<rparr> in
      if CHR '' '' \<notin> set line then (False, out1)
      else
        (let out2 = out1\<lparr>req_method := takeWhile (\<lambda>c. c \<noteq> CHR '' '') line\<rparr>;
             r1 = after_first (CHR '' '') line
         in
         if CHR '' '' \<notin> set r1 then (False, out2)
         else
           (let target = takeWhile (\<lambda>c. c \<noteq> CHR '' '') r1;
                r2 = after_first (CHR '' '') r1;
                out3 = (if CHR ''?'' \<in> set target
                        then out2\<lparr>req_path := before_last (CHR ''?'') target,
                                  req_query_string := after_last (CHR ''?'') target\<rparr>
                        else out2\<lparr>req_path := target\<rparr>)
            in
            if CHR ''/'' \<notin> set r2 \<or> takeWhile (\<lambda>c. c \<noteq> CHR ''/'') r2 \<noteq> ''HTTP'' then (False, out3)
            else (True, out3\<lparr>req_version := butlast (after_first (CHR ''/'') r2)\<rparr>))))"

section \<open>ResponseMessage\<close>

record response =
  resp_version :: string
  resp_status_code :: string
  resp_header :: multimap

definition ResponseMessage_parse ::
  "istream \<Rightarrow> response \<Rightarrow> (bool \<times> istream \<times> response) option" where
  "ResponseMessage_parse stream0 out0 =
     (let out1 = out0\<lparr>resp_header := []\<rparr> in
      case getline stream0 [] of (stream, line) \<Rightarrow>
      let version_end = find_char line (CHR '' '') 0 in
      if version_end \<noteq> npos then
        (if 5 < length line then
           (let out2 = out1\<lparr>resp_version := substr line 5 (size_sub version_end 5)\<rparr> in
            if version_end + 1 < length line then
              (let out3 = out2\<lparr>resp_status_code := substr line (version_end + 1)
                                   (size_sub (size_sub (length line) (version_end + 1)) 1)\<rparr>
               in case HttpHeader_parse stream of
                    None \<Rightarrow> None
                  | Some (stream', h) \<Rightarrow> Some (True, stream', out3\<lparr>resp_header := h\<rparr>))
            else Some (False, stream, out2))
         else Some (False, stream, out1))
      else Some (False, stream, out1))"

text \<open>
  The status line read by its parts.  The version is cut at offset 5 with the
  length \<open>version_end - 5\<close>, which wraps around when the first space comes
  before offset 5 and then takes everything to the end of the line.
\<close>

definition response_line_fields :: "string \<Rightarrow> response \<Rightarrow> bool \<times> response" where
  "response_line_fields line out0 =
     (let out1 = out0\<lparr>resp_header := []\<rparr> in
      if CHR '' '' \<notin> set line \<or> length line \<le> 5 then (False, out1)
      else
        (let version_end = length (takeWhile (\<lambda>c. c \<noteq> CHR '' '') line);
             out2 = out1\<lparr>resp_version :=
                      (if 5 \<le> version_end then take (version_end - 5) (drop 5 line) else drop 5 line)\<rparr>
         in
         if after_first (CHR '' '') line = [] then (False, out2)
         else (True, out2\<lparr>resp_status_code := butlast (after_first (CHR '' '') line)\<rparr>)))"

section \<open>ContentDisposition\<close>

function cd_loop ::
  "string \<Rightarrow> nat \<Rightarrow> nat \<Rightarrow> nat \<Rightarrow> nat \<Rightarrow> multimap \<Rightarrow> nat \<times> nat \<times> nat \<times> multimap" where
  "cd_loop line c para_start_pos para_end_pos value_start_pos result =
     (if c < length line then
        (if para_start_pos \<noteq> npos then
           (if para_end_pos = npos then
              (if line ! c = CHR '';'' then
                 cd_loop line (c + 1) npos para_end_pos value_start_pos
                   (result @ [(substr line para_start_pos (size_sub c para_start_pos), [])])
               else if line ! c = CHR ''='' then
                 cd_loop line (c + 1) para_start_pos c value_start_pos result
               else cd_loop line (c + 1) para_start_pos para_end_pos value_start_pos result)
            else
              (if value_start_pos = npos then
                 (if line ! c = CHR 0x22 \<and> c + 1 < length line then
                    cd_loop line (c + 1) para_start_pos para_end_pos (c + 1) result
                  else cd_loop line (c + 1) para_start_pos para_end_pos value_start_pos result)
               else if line ! c = CHR 0x22 then
                 cd_loop line (c + 1) npos npos npos
                   (result @ [(substr line para_start_pos (size_sub para_end_pos para_start_pos),
                               substr line value_start_pos (size_sub c value_start_pos))])
               else cd_loop line (c + 1) para_start_pos para_end_pos value_start_pos result))
         else if line ! c \<noteq> CHR '' '' \<and> line ! c \<noteq> CHR '';'' then
           cd_loop line (c + 1) c para_end_pos value_start_pos result
         else cd_loop line (c + 1) para_start_pos para_end_pos value_start_pos result)
      else (para_start_pos, para_end_pos, value_start_pos, result))"
  by pat_completeness auto
termination
  by (relation "measure (\<lambda>(line, c, ps, pe, vs, result). length line - c)") auto

definition ContentDisposition_parse :: "string \<Rightarrow> multimap" where
  "ContentDisposition_parse line =
     (case cd_loop line 0 0 npos npos [] of
        (para_start_pos, para_end_pos, value_start_pos, result) \<Rightarrow>
          if para_start_pos \<noteq> npos \<and> para_end_pos = npos then
            result @ [(substr line para_start_pos npos, [])]
          else result)"

text \<open>What follows the loop: a name still open at the end of the line is emitted.\<close>

definition cd_tail :: "string \<Rightarrow> nat \<times> nat \<times> nat \<times> multimap \<Rightarrow> multimap" where
  "cd_tail line conc =
     (case conc of (para_start_pos, para_end_pos, value_start_pos, result) \<Rightarrow>
        if para_start_pos \<noteq> npos \<and> para_end_pos = npos then
          result @ [(substr line para_start_pos npos, [])]
        else result)"

text \<open>
  The scanner read by its states, one character at a time: it seeks the start
  of a name over spaces and semicolons; in a name it gathers characters until
  \<open>;\<close>, which emits the name with an empty value, or \<open>=\<close>, after which it awaits
  the opening quote and skips everything else; in a value it gathers
  characters until the closing quote, which emits the name with the value.
  The first character of the line is always taken as part of a name, as
  \<open>para_start_pos\<close> starts at \<open>0\<close>.
\<close>

datatype cd_state = Seek | In_name string | Await string | In_value string string

fun cd_next :: "cd_state \<times> multimap \<Rightarrow> char \<Rightarrow> cd_state \<times> multimap" where
  "cd_next (Seek, es) c =
     (if c \<noteq> CHR '' '' \<and> c \<noteq> CHR '';'' then (In_name [c], es) else (Seek, es))"
| "cd_next (In_name n, es) c =
     (if c = CHR '';'' then (Seek, es @ [(n, [])])
      else if c = CHR ''='' then (Await n, es)
      else (In_name (n @ [c]), es))"
| "cd_next (Await n, es) c =
     (if c = CHR 0x22 then (In_value n [], es) else (Await n, es))"
| "cd_next (In_value n v, es) c =
     (if c = CHR 0x22 then (Seek, es @ [(n, v)]) else (In_value n (v @ [c]), es))"

definition cd_scan :: "string \<Rightarrow> cd_state \<times> multimap" where
  "cd_scan pre = foldl cd_next (In_name [], []) pre"

text \<open>At the end of the line only a name that is still open adds an entry.\<close>

fun cd_finish :: "cd_state \<times> multimap \<Rightarrow> multimap" where
  "cd_finish (In_name n, es) = es @ [(n, [])]"
| "cd_finish (Seek, es) = es"
| "cd_finish (Await n, es) = es"
| "cd_finish (In_value n v, es) = es"

text \<open>
  How the positions kept by the loop at index \<open>c\<close> stand for a state: \<open>npos\<close>
  marks what has not been met yet, and the name and the value are the text
  between the positions.
\<close>

definition cd_rel ::
  "string \<Rightarrow> nat \<Rightarrow> nat \<times> nat \<times> nat \<times> multimap \<Rightarrow> cd_state \<times> multimap \<Rightarrow> bool" where
  "cd_rel line c conc ab =
     (case conc of (ps, pe, vs, res) \<Rightarrow>
      case ab of (st, es) \<Rightarrow>
        res = es \<and>
        (case st of
           Seek \<Rightarrow> ps = npos \<and> pe = npos \<and> vs = npos
         | In_name n \<Rightarrow> ps \<le> c \<and> pe = npos \<and> vs = npos \<and> n = take (c - ps) (drop ps line)
         | Await n \<Rightarrow> ps \<le> pe \<and> pe < c \<and> vs = npos \<and> n = take (pe - ps) (drop ps line)
         | In_value n v \<Rightarrow>
             ps \<le> pe \<and> pe < vs \<and> vs \<le> c \<and> n = take (pe - ps) (drop ps line)
             \<and> v = take (c - vs) (drop vs line)))"

section \<open>ScopeRunner\<close>

text \<open>
  The counter is a \<open>std::atomic<long>\<close>, and every access to it is one atomic
  operation, so a run of the program is an interleaving of such operations.
  A task is one caller: it is idle, or inside \<open>continue_lock\<close> with its local
  \<open>expected\<close>, or holds the \<open>SharedLock\<close> that \<open>continue_lock\<close> returned, or is
  inside \<open>stop\<close>, where \<open>expected\<close> is 0 before every exchange.  Only
  \<open>continue_lock\<close> makes a \<open>SharedLock\<close>, and its destructor runs once.
\<close>

datatype pc = Idle | Continue_loop int | Holding | Stop_loop

record runner =
  count :: int
  tasks :: "pc list"

text \<open>Arithmetic on \<open>long\<close>, wrapping at 64 bits.\<close>

definition long_wrap :: "int \<Rightarrow> int" where
  "long_wrap x = (x + 2 ^ 63) mod 2 ^ 64 - 2 ^ 63"

text \<open>
  \<open>count.compare_exchange_weak(expected, desired)\<close> on the counter value \<open>cnt\<close>:
  whether it succeeded, the new counter and the new \<open>expected\<close>.  It may fail
  spuriously; a failure loads the counter into \<open>expected\<close>.
\<close>

definition compare_exchange_weak :: "int \<Rightarrow> int \<Rightarrow> int \<Rightarrow> bool \<Rightarrow> bool \<times> int \<times> int" where
  "compare_exchange_weak cnt expected desired spurious =
     (if cnt = expected \<and> \<not> spurious then (True, desired, expected) else (False, cnt, cnt))"

text \<open>
  What a task does next: enter \<open>continue_lock\<close> (reading the counter into
  \<open>expected\<close>), enter \<open>stop\<close>, take one turn of the loop it is in, or destroy
  the lock it holds (\<open>fetch_sub(1)\<close>).  A turn of the loop in \<open>continue_lock\<close>
  leaves with \<open>nullptr\<close> when \<open>expected\<close> is negative, and otherwise tries the
  exchange and leaves with a lock when it succeeds.  An action that does not
  fit the task's state changes nothing.
\<close>

datatype action = Call_continue | Call_stop | Step bool | Release

definition step :: "runner \<Rightarrow> nat \<times> action \<Rightarrow> runner" where
  "step s ia =
     (case ia of (i, a) \<Rightarrow>
      if i < length (tasks s) then
        (case (tasks s ! i, a) of
           (Idle, Call_continue) \<Rightarrow> s\<lparr>tasks := (tasks s)[i := Continue_loop (count s)]\<rparr>
         | (Idle, Call_stop) \<Rightarrow> s\<lparr>tasks := (tasks s)[i := Stop_loop]\<rparr>
         | (Continue_loop expected, Step spurious) \<Rightarrow>
             if expected \<ge> 0 then
               (case compare_exchange_weak (count s) expected (long_wrap (expected + 1)) spurious of
                  (ok, cnt, expected') \<Rightarrow>
                    if ok then s\<lparr>count := cnt, tasks := (tasks s)[i := Holding]\<rparr>
                    else s\<lparr>tasks := (tasks s)[i := Continue_loop expected']\<rparr>)
             else s\<lparr>tasks := (tasks s)[i := Idle]\<rparr>
         | (Holding, Release) \<Rightarrow>
             s\<lparr>count := long_wrap (count s - 1), tasks := (tasks s)[i := Idle]\<rparr>
         | (Stop_loop, Step spurious) \<Rightarrow>
             (case compare_exchange_weak (count s) 0 (- 1) spurious of
                (ok, cnt, expected') \<Rightarrow>
                  if ok then s\<lparr>count := cnt, tasks := (tasks s)[i := Idle]\<rparr>
                  else if expected' < 0 then s\<lparr>tasks := (tasks s)[i := Idle]\<rparr>
                  else s)
         | _ \<Rightarrow> s)
      else s)"

definition run :: "runner \<Rightarrow> (nat \<times> action) list \<Rightarrow> runner" where
  "run s sched = foldl step s sched"

definition init :: "nat \<Rightarrow> runner" where
  "init n = \<lparr>count = 0, tasks = replicate n Idle\<rparr>"

text \<open>The number of locks outstanding, and what holds of every reachable state.\<close>

definition guards :: "runner \<Rightarrow> nat" where
  "guards s = length (filter (\<lambda>p. p = Holding) (tasks s))"

definition runner_inv :: "runner \<Rightarrow> bool" where
  "runner_inv s \<longleftrightarrow>
     int (length (tasks s)) < 2 ^ 63 \<and>
     ((count s = - 1 \<and> guards s = 0) \<or> count s = int (guards s))"

section \<open>Arithmetic on positions\<close>

declare find_char.simps [simp del]
declare decode_loop.simps [simp del]
declare parse_loop.simps [simp del]
declare target_loop.simps [simp del]
declare cd_loop.simps [simp del]

lemma size_sub_eq:
  assumes "b \<le> a" "a < 2 ^ 64"
  shows "size_sub a b = a - b"
proof -
  have "a + 2 ^ 64 - b = (a - b) + 2 ^ 64"
    using assms(1) by simp
  moreover have "a - b < 2 ^ 64"
    using assms(2) by simp
  ultimately show ?thesis
    unfolding size_sub_def by (simp only: mod_add_self2 mod_less)
qed

lemma npos_less: "npos < 2 ^ 64"
  by (simp add: npos_def)

section \<open>Percent: the decoder is a left inverse away from the percent sign\<close>

lemma encode_loop_acc: "encode_loop v res = res @ encode_loop v []"
proof (induction v arbitrary: res)
  case Nil
  then show ?case by simp
next
  case (Cons c v)
  show ?case
    using Cons.IH [of "res @ ''+''"] Cons.IH [of "''+''"]
      Cons.IH [of "res @ [c]"] Cons.IH [of "[c]"]
      Cons.IH [of "res @ ''%'' @ [hex_chars ! (of_char c div 16), hex_chars ! (of_char c mod 16)]"]
      Cons.IH [of "''%'' @ [hex_chars ! (of_char c div 16), hex_chars ! (of_char c mod 16)]"]
    by simp
qed

lemma encode_Nil: "Percent_encode [] = []"
  by (simp add: Percent_encode_def)

lemma encode_Cons:
  "Percent_encode (c # v) =
     (if c = CHR '' '' then ''+''
      else if reserved c then ''%'' @ [hex_chars ! (of_char c div 16), hex_chars ! (of_char c mod 16)]
      else [c]) @ Percent_encode v"
  unfolding Percent_encode_def
  using encode_loop_acc [of v "''+''"] encode_loop_acc [of v "[c]"]
    encode_loop_acc [of v "''%'' @ [hex_chars ! (of_char c div 16), hex_chars ! (of_char c mod 16)]"]
  by simp

lemma decode_loop_end: "\<not> i < length v \<Longrightarrow> decode_loop v i res = res"
  by (subst decode_loop.simps) simp

lemma decode_loop_pct:
  "i < length v \<Longrightarrow> v ! i = CHR ''%'' \<Longrightarrow> i + 2 < length v \<Longrightarrow>
   decode_loop v i res = decode_loop v (i + 2 + 1) (res @ [char_of (strtol16 (substr v (i + 1) 2))])"
  by (subst decode_loop.simps) simp

lemma decode_loop_plus:
  "i < length v \<Longrightarrow> \<not> (v ! i = CHR ''%'' \<and> i + 2 < length v) \<Longrightarrow> v ! i = CHR ''+'' \<Longrightarrow>
   decode_loop v i res = decode_loop v (i + 1) (res @ '' '')"
  by (subst decode_loop.simps) auto

lemma decode_loop_other:
  "i < length v \<Longrightarrow> \<not> (v ! i = CHR ''%'' \<and> i + 2 < length v) \<Longrightarrow> v ! i \<noteq> CHR ''+'' \<Longrightarrow>
   decode_loop v i res = decode_loop v (i + 1) (res @ [v ! i])"
  by (subst decode_loop.simps) auto

lemma decode_loop_acc: "decode_loop v i res = res @ decode_loop v i []"
proof (induction "length v - i" arbitrary: i res rule: less_induct)
  case less
  show ?case
  proof (cases "i < length v")
    case False
    then show ?thesis by (simp add: decode_loop_end)
  next
    case True
    have m1: "length v - (i + 1) < length v - i"
      using True by auto
    consider (pct) "v ! i = CHR ''%'' \<and> i + 2 < length v"
      | (plus) "\<not> (v ! i = CHR ''%'' \<and> i + 2 < length v)" "v ! i = CHR ''+''"
      | (other) "\<not> (v ! i = CHR ''%'' \<and> i + 2 < length v)" "v ! i \<noteq> CHR ''+''"
      by blast
    then show ?thesis
    proof cases
      case pct
      then have m3: "length v - (i + 2 + 1) < length v - i" by auto
      show ?thesis
        using pct True less.hyps [OF m3, of "res @ [char_of (strtol16 (substr v (i + 1) 2))]"]
          less.hyps [OF m3, of "[char_of (strtol16 (substr v (i + 1) 2))]"]
        by (simp add: decode_loop_pct)
    next
      case plus
      show ?thesis
        using True less.hyps [OF m1, of "res @ '' ''"] less.hyps [OF m1, of "'' ''"]
        by (simp add: decode_loop_plus [OF True plus])
    next
      case other
      show ?thesis
        using True less.hyps [OF m1, of "res @ [v ! i]"] less.hyps [OF m1, of "[v ! i]"]
        by (simp add: decode_loop_other [OF True other])
    qed
  qed
qed

lemma decode_loop_shift: "decode_loop (c # v) (Suc i) res = decode_loop v i res"
proof (induction "length v - i" arbitrary: i res rule: less_induct)
  case less
  show ?case
  proof (cases "i < length v")
    case False
    then show ?thesis by (simp add: decode_loop_end)
  next
    case True
    then have True': "Suc i < length (c # v)" by simp
    have m1: "length v - (i + 1) < length v - i"
      using True by auto
    consider (pct) "v ! i = CHR ''%'' \<and> i + 2 < length v"
      | (plus) "\<not> (v ! i = CHR ''%'' \<and> i + 2 < length v)" "v ! i = CHR ''+''"
      | (other) "\<not> (v ! i = CHR ''%'' \<and> i + 2 < length v)" "v ! i \<noteq> CHR ''+''"
      by blast
    then show ?thesis
    proof cases
      case pct
      then have m3: "length v - (i + 2 + 1) < length v - i" by auto
      have p': "(c # v) ! Suc i = CHR ''%''" "Suc i + 2 < length (c # v)" using pct by auto
      have e1: "decode_loop (c # v) (Suc i) res
                = decode_loop (c # v) (Suc (i + 2 + 1)) (res @ [char_of (strtol16 (substr v (i + 1) 2))])"
        using decode_loop_pct [OF True' p', of res] by (simp add: substr_def)
      have e2: "decode_loop v i res = decode_loop v (i + 2 + 1) (res @ [char_of (strtol16 (substr v (i + 1) 2))])"
        using pct by (intro decode_loop_pct True) auto
      show ?thesis
        unfolding e1 e2 by (rule less.hyps [OF m3])
    next
      case plus
      have p': "\<not> ((c # v) ! Suc i = CHR ''%'' \<and> Suc i + 2 < length (c # v))" "(c # v) ! Suc i = CHR ''+''"
        using plus by auto
      show ?thesis
        using less.hyps [OF m1, of "res @ '' ''"]
        by (simp add: decode_loop_plus [OF True' p'] decode_loop_plus [OF True plus])
    next
      case other
      have p': "\<not> ((c # v) ! Suc i = CHR ''%'' \<and> Suc i + 2 < length (c # v))" "(c # v) ! Suc i \<noteq> CHR ''+''"
        using other by auto
      show ?thesis
        using less.hyps [OF m1, of "res @ [v ! i]"]
        by (simp add: decode_loop_other [OF True' p'] decode_loop_other [OF True other])
    qed
  qed
qed

lemma decode_Nil: "Percent_decode [] = []"
  by (simp add: Percent_decode_def decode_loop_end)

lemma decode_Cons_pct:
  assumes "2 \<le> length v"
  shows "Percent_decode (CHR ''%'' # v) = char_of (strtol16 (take 2 v)) # Percent_decode (drop 2 v)"
proof -
  obtain a b w where v: "v = a # b # w"
    using assms by (cases v; cases "tl v") auto
  have "decode_loop (CHR ''%'' # v) (Suc (Suc (Suc 0))) res = decode_loop w 0 res" for res
    by (simp add: v decode_loop_shift)
  then have "Percent_decode (CHR ''%'' # v) = decode_loop w 0 [char_of (strtol16 [a, b])]"
    unfolding Percent_decode_def
    by (subst decode_loop_pct) (simp_all add: v substr_def numeral_3_eq_3)
  then show ?thesis
    using decode_loop_acc [of w 0 "[char_of (strtol16 [a, b])]"]
    by (simp add: v Percent_decode_def)
qed

lemma decode_Cons_plus: "Percent_decode (CHR ''+'' # v) = CHR '' '' # Percent_decode v"
proof -
  have "Percent_decode (CHR ''+'' # v) = decode_loop (CHR ''+'' # v) (Suc 0) '' ''"
    unfolding Percent_decode_def by (subst decode_loop_plus) simp_all
  then show ?thesis
    using decode_loop_acc [of v 0 "'' ''"] by (simp add: decode_loop_shift Percent_decode_def)
qed

lemma decode_Cons_other:
  assumes "\<not> (c = CHR ''%'' \<and> 2 \<le> length v)" "c \<noteq> CHR ''+''"
  shows "Percent_decode (c # v) = c # Percent_decode v"
proof -
  have "Percent_decode (c # v) = decode_loop (c # v) (Suc 0) [c]"
    unfolding Percent_decode_def using assms by (subst decode_loop_other) auto
  then show ?thesis
    using decode_loop_acc [of v 0 "[c]"] by (simp add: decode_loop_shift Percent_decode_def)
qed

lemma reserved_cases:
  assumes "reserved c"
  shows "c \<in> set ''!#$&'()*+,/0123456789:;=?@[]''"
proof -
  define n where "n = (of_char c :: nat)"
  have c: "c = char_of n" by (simp add: n_def)
  have "n = 33 \<or> n = 35 \<or> n = 36 \<or> (38 \<le> n \<and> n \<le> 44) \<or> (47 \<le> n \<and> n \<le> 59)
          \<or> n = 61 \<or> n = 63 \<or> n = 64 \<or> n = 91 \<or> n = 93"
    using assms unfolding reserved_def n_def by auto
  then have "n \<in> {33, 35, 36, 38, 39, 40, 41, 42, 43, 44, 47, 48, 49, 50, 51, 52, 53, 54, 55,
                    56, 57, 58, 59, 61, 63, 64, 91, 93}"
    by simp arith
  then show ?thesis unfolding c
    by (auto simp: char_of_eq_iff)
qed

lemma reserved_hex_all:
  "list_all (\<lambda>c. char_of (strtol16 [hex_chars ! (of_char c div 16), hex_chars ! (of_char c mod 16)]) = c)
     ''!#$&'()*+,/0123456789:;=?@[]''"
  by (simp add: hex_chars_def strtol16_def hex_digit_def isspace_def char_of_eq_iff)

lemma reserved_hex:
  assumes "reserved c"
  shows "char_of (strtol16 [hex_chars ! (of_char c div 16), hex_chars ! (of_char c mod 16)]) = c"
  using reserved_hex_all reserved_cases [OF assms] unfolding list_all_iff by blast

lemma reserved_plus: "reserved (CHR ''+'')"
  by (simp add: reserved_def)

lemma reserved_amp: "reserved (CHR ''&'')"
  by (simp add: reserved_def)

lemma reserved_eq: "reserved (CHR ''='')"
  by (simp add: reserved_def)

lemma decode_encode_char:
  assumes "c \<noteq> CHR ''%''"
  shows "Percent_decode (Percent_encode [c] @ w) = c # Percent_decode w"
proof (cases "c = CHR '' ''")
  case True
  then show ?thesis by (simp add: encode_Cons encode_Nil decode_Cons_plus)
next
  case False
  note ns = this
  show ?thesis
  proof (cases "reserved c")
    case True
    have "Percent_decode (Percent_encode [c] @ w)
            = Percent_decode (CHR ''%'' # [hex_chars ! (of_char c div 16), hex_chars ! (of_char c mod 16)] @ w)"
      using ns True by (simp add: encode_Cons encode_Nil)
    also have "\<dots> = char_of (strtol16 [hex_chars ! (of_char c div 16), hex_chars ! (of_char c mod 16)])
                         # Percent_decode w"
      by (subst decode_Cons_pct) simp_all
    finally show ?thesis by (simp only: reserved_hex [OF True])
  next
    case False
    then have "c \<noteq> CHR ''+''" using reserved_plus by blast
    then show ?thesis using ns False assms
      by (simp add: encode_Cons encode_Nil decode_Cons_other)
  qed
qed

lemma decode_encode_no_percent:
  "CHR ''%'' \<notin> set x \<Longrightarrow> Percent_decode (Percent_encode x) = x"
proof (induction x)
  case Nil
  then show ?case by (simp add: encode_Nil decode_Nil)
next
  case (Cons c x)
  then have c: "c \<noteq> CHR ''%''" by auto
  have "Percent_encode (c # x) = Percent_encode [c] @ Percent_encode x"
    by (simp add: encode_Cons encode_Nil)
  then show ?case using Cons decode_encode_char [OF c] by simp
qed

text \<open>
  Claim C1: for every string \<open>x\<close>, decoding the encoding of \<open>x\<close> gives \<open>x\<close> back.
  The encoder leaves the percent sign as it is, and the decoder reads a percent
  sign with two characters after it as an escape: the three characters \<open>%AB\<close>
  are their own encoding and decode to the single byte \<open>0xAB\<close>.
\<close>

theorem Percent_roundtrip_fails_on_percent:
  "Percent_encode ''%AB'' = ''%AB'' \<and>
   Percent_decode (Percent_encode ''%AB'') = [CHR 0xAB] \<and>
   Percent_decode (Percent_encode ''%AB'') \<noteq> ''%AB''"
proof -
  have e: "Percent_encode ''%AB'' = ''%AB''"
    by (simp add: Percent_encode_def reserved_def)
  have d: "Percent_decode ''%AB'' = [CHR 0xAB]"
    by (simp add: Percent_decode_def decode_loop.simps substr_def strtol16_def hex_digit_def
        isspace_def char_of_eq_iff)
  show ?thesis unfolding e d by simp
qed

section \<open>QueryString: the scanner reads segments cut at the last equals sign\<close>

lemma last_split:
  assumes "d \<in> set seg"
  shows "seg = before_last d seg @ d # after_last d seg"
proof -
  have r: "d \<in> set (rev seg)" using assms by simp
  have "rev seg = takeWhile (\<lambda>c. c \<noteq> d) (rev seg) @ dropWhile (\<lambda>c. c \<noteq> d) (rev seg)"
    by simp
  moreover have "dropWhile (\<lambda>c. c \<noteq> d) (rev seg) \<noteq> []"
    using r by (simp add: dropWhile_eq_Nil_conv)
  moreover have "hd (dropWhile (\<lambda>c. c \<noteq> d) (rev seg)) = d"
    using hd_dropWhile [of "\<lambda>c. c \<noteq> d" "rev seg"] calculation(2) by simp
  ultimately have "rev seg = takeWhile (\<lambda>c. c \<noteq> d) (rev seg) @ d # tl (dropWhile (\<lambda>c. c \<noteq> d) (rev seg))"
    by (metis list.collapse)
  then have "rev (rev seg) = rev (takeWhile (\<lambda>c. c \<noteq> d) (rev seg) @ d # tl (dropWhile (\<lambda>c. c \<noteq> d) (rev seg)))"
    by simp
  then show ?thesis
    using assms by (simp add: before_last_def after_last_def)
qed

lemma after_last_no: "d \<notin> set (after_last d seg)"
proof (cases "d \<in> set seg")
  case True
  have "d \<notin> set (takeWhile (\<lambda>c. c \<noteq> d) (rev seg))"
    by (auto dest: set_takeWhileD)
  then show ?thesis using True by (simp add: after_last_def)
next
  case False
  then show ?thesis by (simp add: after_last_def)
qed

lemma last_split_unique:
  assumes "d \<notin> set b"
  shows "before_last d (a @ d # b) = a" and "after_last d (a @ d # b) = b"
proof -
  have t: "takeWhile (\<lambda>c. c \<noteq> d) (rev b @ d # rev a) = rev b"
    using assms by (subst takeWhile_append2) auto
  have dr: "dropWhile (\<lambda>c. c \<noteq> d) (rev b @ d # rev a) = d # rev a"
    using assms by (subst dropWhile_append2) auto
  show "before_last d (a @ d # b) = a"
    by (simp add: before_last_def dr)
  show "after_last d (a @ d # b) = b"
    by (simp add: after_last_def t)
qed

lemma before_last_none: "d \<notin> set seg \<Longrightarrow> before_last d seg = seg"
  by (simp add: before_last_def)

lemma after_last_none: "d \<notin> set seg \<Longrightarrow> after_last d seg = []"
  by (simp add: after_last_def)

lemma before_last_le: "length (before_last d seg) \<le> length seg"
proof (cases "d \<in> set seg")
  case True
  show ?thesis using arg_cong [OF last_split [OF True], of length] by simp
next
  case False
  then show ?thesis by (simp add: before_last_none)
qed

lemma last_snoc_same:
  "before_last d (seg @ [d]) = seg" "after_last d (seg @ [d]) = []"
  using last_split_unique [of d "[]" seg] by simp_all

lemma last_snoc_other:
  assumes "x \<noteq> d" "d \<in> set seg"
  shows "before_last d (seg @ [x]) = before_last d seg"
    and "after_last d (seg @ [x]) = after_last d seg @ [x]"
proof -
  have s: "seg @ [x] = before_last d seg @ d # (after_last d seg @ [x])"
    using last_split [OF assms(2)] by simp
  have n: "d \<notin> set (after_last d seg @ [x])"
    using after_last_no [of d seg] assms(1) by simp
  show "before_last d (seg @ [x]) = before_last d seg"
    by (subst s) (rule last_split_unique(1) [OF n])
  show "after_last d (seg @ [x]) = after_last d seg @ [x]"
    by (subst s) (rule last_split_unique(2) [OF n])
qed

lemma split_on_no: "d \<notin> set seg \<Longrightarrow> split_on d seg = [seg]"
  by (induction seg) auto

lemma split_on_append: "d \<notin> set seg \<Longrightarrow> split_on d (seg @ d # rest) = seg # split_on d rest"
  by (induction seg) auto

lemma take_drop_snoc:
  assumes "np \<le> c" "c < length qs"
  shows "take (c + 1 - np) (drop np qs) = take (c - np) (drop np qs) @ [qs ! c]"
proof -
  have "c - np < length (drop np qs)" using assms by simp
  then have "take (Suc (c - np)) (drop np qs) = take (c - np) (drop np qs) @ [drop np qs ! (c - np)]"
    by (rule take_Suc_conv_app_nth)
  moreover have "drop np qs ! (c - np) = qs ! c" using assms by simp
  moreover have "c + 1 - np = Suc (c - np)" using assms by simp
  ultimately show ?thesis by simp
qed

lemma segment_name:
  assumes len: "length qs < npos" and npc: "np \<le> c" and cl: "c \<le> length qs"
    and seg: "seg = take (c - np) (drop np qs)"
    and inv: "if CHR ''='' \<in> set seg then nep = np + length (before_last (CHR ''='') seg) \<and> vp = nep + 1
              else nep = npos \<and> vp = npos"
  shows "substr qs np (size_sub (if nep = npos then c else nep) np) = before_last (CHR ''='') seg"
proof (cases "CHR ''='' \<in> set seg")
  case True
  have ls: "seg = before_last (CHR ''='') seg @ CHR ''='' # after_last (CHR ''='') seg"
    by (rule last_split [OF True])
  have lseg: "length seg = c - np" using seg npc cl by simp
  have lb: "length (before_last (CHR ''='') seg) < c - np"
    using arg_cong [OF ls, of length] lseg by simp
  have nep: "nep = np + length (before_last (CHR ''='') seg)" using inv True by simp
  then have "nep < npos" using lb len cl by simp
  then have s: "size_sub (if nep = npos then c else nep) np = length (before_last (CHR ''='') seg)"
    using nep npos_less by (simp add: size_sub_eq)
  have "take (length (before_last (CHR ''='') seg)) (drop np qs)
          = take (length (before_last (CHR ''='') seg)) seg"
    using lb by (simp add: seg min_def)
  also have "\<dots> = before_last (CHR ''='') seg"
    by (subst ls) simp
  finally show ?thesis by (simp add: substr_def s)
next
  case False
  then have "nep = npos" using inv by simp
  moreover have "c < 2 ^ 64" using cl len npos_less by simp
  ultimately show ?thesis
    using npc False by (simp add: substr_def size_sub_eq seg before_last_none)
qed

lemma segment_value:
  assumes len: "length qs < npos" and npc: "np \<le> c" and cl: "c \<le> length qs"
    and seg: "seg = take (c - np) (drop np qs)"
    and inv: "if CHR ''='' \<in> set seg then nep = np + length (before_last (CHR ''='') seg) \<and> vp = nep + 1
              else nep = npos \<and> vp = npos"
  shows "(if vp = npos then [] else substr qs vp (size_sub c vp)) = after_last (CHR ''='') seg"
proof (cases "CHR ''='' \<in> set seg")
  case True
  have ls: "seg = before_last (CHR ''='') seg @ CHR ''='' # after_last (CHR ''='') seg"
    by (rule last_split [OF True])
  have lseg: "length seg = c - np" using seg npc cl by simp
  have lb: "length (before_last (CHR ''='') seg) < c - np"
    using arg_cong [OF ls, of length] lseg by simp
  have vp: "vp = np + length (before_last (CHR ''='') seg) + 1" using inv True by simp
  then have vpc: "vp \<le> c" using lb by simp
  then have "vp \<noteq> npos" using len cl by simp
  moreover have "size_sub c vp = c - vp"
    using vpc cl len npos_less by (simp add: size_sub_eq)
  moreover have "take (c - vp) (drop vp qs) = drop (length (before_last (CHR ''='') seg) + 1) seg"
    unfolding seg vp by (simp add: drop_take add.commute)
  moreover have "drop (length (before_last (CHR ''='') seg) + 1) seg = after_last (CHR ''='') seg"
    by (subst ls) simp
  ultimately show ?thesis by (simp add: substr_def)
next
  case False
  then show ?thesis using inv by (simp add: after_last_none)
qed

lemma parse_segments_single:
  assumes "CHR ''&'' \<notin> set seg"
  shows "parse_segments seg
           = (if before_last (CHR ''='') seg \<noteq> []
              then [(before_last (CHR ''='') seg, Percent_decode (after_last (CHR ''='') seg))] else [])"
  using assms by (simp add: parse_segments_def split_on_no segment_entry_def)

lemma parse_segments_append:
  assumes "CHR ''&'' \<notin> set seg"
  shows "parse_segments (seg @ CHR ''&'' # rest)
           = (if before_last (CHR ''='') seg \<noteq> []
              then [(before_last (CHR ''='') seg, Percent_decode (after_last (CHR ''='') seg))] else [])
             @ parse_segments rest"
  using assms by (simp add: parse_segments_def split_on_append segment_entry_def)

lemma parse_loop_end:
  "\<not> c < length qs \<Longrightarrow> parse_loop qs c np nep vp res = (np, nep, vp, res)"
  by (subst parse_loop.simps) simp

lemma parse_loop_amp:
  "c < length qs \<Longrightarrow> qs ! c = CHR ''&'' \<Longrightarrow>
   parse_loop qs c np nep vp res =
     parse_loop qs (c + 1) (c + 1) npos npos
       (if substr qs np (size_sub (if nep = npos then c else nep) np) \<noteq> [] then
          res @ [(substr qs np (size_sub (if nep = npos then c else nep) np),
                  Percent_decode (if vp = npos then [] else substr qs vp (size_sub c vp)))]
        else res)"
  by (subst parse_loop.simps) (simp add: Let_def)

lemma parse_loop_eq:
  "c < length qs \<Longrightarrow> qs ! c = CHR ''='' \<Longrightarrow>
   parse_loop qs c np nep vp res = parse_loop qs (c + 1) np c (c + 1) res"
  by (subst parse_loop.simps) simp

lemma parse_loop_other:
  "c < length qs \<Longrightarrow> qs ! c \<noteq> CHR ''&'' \<Longrightarrow> qs ! c \<noteq> CHR ''='' \<Longrightarrow>
   parse_loop qs c np nep vp res = parse_loop qs (c + 1) np nep vp res"
  by (subst parse_loop.simps) simp

lemma parse_tail_segments:
  assumes len: "length qs < npos" and npl: "np \<le> length qs"
    and noamp: "CHR ''&'' \<notin> set (drop np qs)"
    and inv: "if CHR ''='' \<in> set (drop np qs)
              then nep = np + length (before_last (CHR ''='') (drop np qs)) \<and> vp = nep + 1
              else nep = npos \<and> vp = npos"
  shows "parse_tail qs (np, nep, vp, res) = res @ parse_segments (drop np qs)"
proof (cases "np < length qs")
  case False
  then have "drop np qs = []" by simp
  then show ?thesis using False
    by (simp add: parse_tail_def parse_segments_def before_last_def)
next
  case True
  define seg where "seg = drop np qs"
  have seg: "seg = take (length qs - np) (drop np qs)" by (simp add: seg_def)
  have inv': "if CHR ''='' \<in> set seg then nep = np + length (before_last (CHR ''='') seg) \<and> vp = nep + 1
              else nep = npos \<and> vp = npos"
    using inv by (simp add: seg_def)
  have lq: "length qs \<noteq> npos" using len by simp
  have nm0: "substr qs np (size_sub (if nep = npos then length qs else nep) np) = before_last (CHR ''='') seg"
    by (rule segment_name [OF len npl order_refl seg inv'])
  have nm: "substr qs np (size_sub nep np) = before_last (CHR ''='') seg"
  proof (cases "nep = npos")
    case False
    then show ?thesis using nm0 by simp
  next
    case True
    have "length (before_last (CHR ''='') seg) \<le> length seg"
      by (rule before_last_le)
    then have "np + length (before_last (CHR ''='') seg) < npos"
      using len npl by (simp add: seg_def)
    then have ne: "CHR ''='' \<notin> set seg" using inv' True
      by (auto split: if_splits)
    have "size_sub npos np = npos - np"
      using npl len npos_less by (simp add: size_sub_eq)
    then have "substr qs np (size_sub nep np) = drop np qs"
      using True len by (simp add: substr_def)
    then show ?thesis using ne by (simp add: before_last_none seg_def)
  qed
  have vl0: "(if vp = npos then [] else substr qs vp (size_sub (length qs) vp)) = after_last (CHR ''='') seg"
    by (rule segment_value [OF len npl order_refl seg inv'])
  have vl: "(if vp \<ge> length qs then [] else substr qs vp npos) = after_last (CHR ''='') seg"
  proof (cases "vp \<ge> length qs")
    case True
    show ?thesis
    proof (cases "vp = npos")
      case True
      then show ?thesis using vl0 len by simp
    next
      case False
      have "size_sub (length qs) vp = 0 \<or> drop vp qs = []" using True by simp
      then show ?thesis using vl0 False True by (auto simp: substr_def)
    qed
  next
    case False
    then have "vp \<noteq> npos" using len by simp
    moreover have "size_sub (length qs) vp = length qs - vp"
      using False len npos_less by (simp add: size_sub_eq)
    ultimately have "after_last (CHR ''='') seg = drop vp qs"
      using vl0 by (simp add: substr_def)
    moreover have "substr qs vp npos = drop vp qs"
      using len by (simp add: substr_def)
    ultimately show ?thesis using False by simp
  qed
  have "parse_tail qs (np, nep, vp, res)
          = (if before_last (CHR ''='') seg \<noteq> []
             then res @ [(before_last (CHR ''='') seg, Percent_decode (after_last (CHR ''='') seg))] else res)"
    using True by (simp add: parse_tail_def Let_def nm vl)
  then show ?thesis
    using parse_segments_single [OF noamp] by (simp add: seg_def)
qed

lemma parse_loop_segments:
  assumes len: "length qs < npos" and npc: "np \<le> c" and cl: "c \<le> length qs"
    and seg: "seg = take (c - np) (drop np qs)"
    and noamp: "CHR ''&'' \<notin> set seg"
    and inv: "if CHR ''='' \<in> set seg then nep = np + length (before_last (CHR ''='') seg) \<and> vp = nep + 1
              else nep = npos \<and> vp = npos"
  shows "parse_tail qs (parse_loop qs c np nep vp res) = res @ parse_segments (drop np qs)"
  using npc cl seg noamp inv
proof (induction "length qs - c" arbitrary: c np nep vp res seg rule: less_induct)
  case less
  note npc = less.prems(1) and cl = less.prems(2) and seg = less.prems(3)
    and noamp = less.prems(4) and inv = less.prems(5)
  show ?case
  proof (cases "c < length qs")
    case False
    then have c: "c = length qs" using cl by simp
    have s: "seg = drop np qs" using seg c by simp
    show ?thesis
      unfolding parse_loop_end [OF False]
      using noamp inv cl npc unfolding s c
      by (intro parse_tail_segments [OF len]) auto
  next
    case True
    have m: "length qs - (c + 1) < length qs - c" using True by simp
    have cl1: "c + 1 \<le> length qs" using True by simp
    have snoc: "take (c + 1 - np) (drop np qs) = seg @ [qs ! c]"
      unfolding seg by (rule take_drop_snoc [OF npc True])
    consider (amp) "qs ! c = CHR ''&''" | (eq) "qs ! c = CHR ''=''"
      | (other) "qs ! c \<noteq> CHR ''&''" "qs ! c \<noteq> CHR ''=''" by blast
    then show ?thesis
    proof cases
      case amp
      have nm: "substr qs np (size_sub (if nep = npos then c else nep) np) = before_last (CHR ''='') seg"
        by (rule segment_name [OF len npc cl seg inv])
      have vl: "(if vp = npos then [] else substr qs vp (size_sub c vp)) = after_last (CHR ''='') seg"
        by (rule segment_value [OF len npc cl seg inv])
      have d: "drop np qs = seg @ CHR ''&'' # drop (c + 1) qs"
      proof -
        have "drop np qs = take (c - np) (drop np qs) @ drop (c - np) (drop np qs)"
          by (rule append_take_drop_id [symmetric])
        also have "drop (c - np) (drop np qs) = drop c qs" using npc by simp
        also have "drop c qs = qs ! c # drop (c + 1) qs"
          using True by (simp add: Cons_nth_drop_Suc)
        finally show ?thesis using amp seg by simp
      qed
      have ih: "parse_tail qs (parse_loop qs (c + 1) (c + 1) npos npos r)
                  = r @ parse_segments (drop (c + 1) qs)" for r
        by (rule less.hyps [OF m order_refl cl1, of "[]"]) simp_all
      show ?thesis
        unfolding parse_loop_amp [OF True amp] nm vl ih d parse_segments_append [OF noamp]
        by simp
    next
      case eq
      have seg': "seg @ [CHR ''=''] = take (c + 1 - np) (drop np qs)"
        using snoc eq by simp
      have npc1: "np \<le> c + 1" using npc by simp
      have lseg: "length seg = c - np" using seg npc cl by simp
      have inv1: "if CHR ''='' \<in> set (seg @ [CHR ''=''])
                  then c = np + length (before_last (CHR ''='') (seg @ [CHR ''=''])) \<and> c + 1 = c + 1
                  else c = npos \<and> c + 1 = npos"
        using lseg npc by (simp add: last_snoc_same)
      have na: "CHR ''&'' \<notin> set (seg @ [CHR ''=''])" using noamp by simp
      show ?thesis
        unfolding parse_loop_eq [OF True eq]
        by (rule less.hyps [OF m npc1 cl1 seg' na inv1])
    next
      case other
      have seg': "seg @ [qs ! c] = take (c + 1 - np) (drop np qs)"
        using snoc by simp
      have npc1: "np \<le> c + 1" using npc by simp
      have inv1: "if CHR ''='' \<in> set (seg @ [qs ! c])
                  then nep = np + length (before_last (CHR ''='') (seg @ [qs ! c])) \<and> vp = nep + 1
                  else nep = npos \<and> vp = npos"
        using inv other(2) by (auto simp: last_snoc_other)
      have na: "CHR ''&'' \<notin> set (seg @ [qs ! c])" using noamp other(1) by simp
      show ?thesis
        unfolding parse_loop_other [OF True other]
        by (rule less.hyps [OF m npc1 cl1 seg' na inv1])
    qed
  qed
qed

lemma QueryString_parse_segments:
  assumes "length qs < npos"
  shows "QueryString_parse qs = parse_segments qs"
proof (cases "qs = []")
  case True
  then show ?thesis
    by (simp add: QueryString_parse_def parse_segments_def before_last_def)
next
  case False
  have "parse_tail qs (parse_loop qs 0 0 npos npos []) = [] @ parse_segments (drop 0 qs)"
    by (rule parse_loop_segments [OF assms, of 0 0 "[]"]) simp_all
  then show ?thesis using False by (simp add: QueryString_parse_def)
qed

section \<open>QueryString: what \<open>create\<close> writes, \<open>parse\<close> reads back\<close>

lemma create_loop_False:
  "create_loop fs False res = res @ concat (map (\<lambda>f. CHR ''&'' # field_segment f) fs)"
  by (induction fs arbitrary: res) (simp_all add: field_segment_def)

lemma create_Nil: "QueryString_create [] = []"
  by (simp add: QueryString_create_def)

lemma create_Cons:
  "QueryString_create (f # fs)
     = field_segment f @ concat (map (\<lambda>f. CHR ''&'' # field_segment f) fs)"
  by (simp add: QueryString_create_def create_loop_False field_segment_def)

lemma hex_chars_nth: "n < 16 \<Longrightarrow> hex_chars ! n \<in> set ''0123456789ABCDEF''"
  unfolding hex_chars_def by (rule nth_mem) simp

lemma of_char_div16: "(of_char c :: nat) div 16 < 16"
proof -
  have "(of_char c :: nat) < 16 * 16" using nat_of_char_less_256 [of c] by simp
  then show ?thesis by (rule less_mult_imp_div_less)
qed

lemma encode_chars:
  "x \<in> set (Percent_encode v) \<Longrightarrow>
     x = CHR ''+'' \<or> x = CHR ''%'' \<or> x \<in> set ''0123456789ABCDEF'' \<or> (\<not> reserved x \<and> x \<noteq> CHR '' '')"
proof (induction v)
  case Nil
  then show ?case by (simp add: encode_Nil)
next
  case (Cons c v)
  have h1: "hex_chars ! (of_char c div 16) \<in> set ''0123456789ABCDEF''"
    by (rule hex_chars_nth [OF of_char_div16])
  have h2: "hex_chars ! (of_char c mod 16) \<in> set ''0123456789ABCDEF''"
    by (rule hex_chars_nth) simp
  from Cons.prems consider
    (hd) "x \<in> set (if c = CHR '' '' then ''+''
          else if reserved c then ''%'' @ [hex_chars ! (of_char c div 16), hex_chars ! (of_char c mod 16)]
          else [c])"
    | (tl) "x \<in> set (Percent_encode v)"
    by (auto simp: encode_Cons)
  then show ?case
  proof cases
    case hd
    then show ?thesis using h1 h2 by (auto split: if_splits)
  next
    case tl
    then show ?thesis by (rule Cons.IH)
  qed
qed

lemma encode_no_amp: "CHR ''&'' \<notin> set (Percent_encode v)"
  using encode_chars [of "CHR ''&''" v] reserved_amp by auto

lemma encode_no_eq: "CHR ''='' \<notin> set (Percent_encode v)"
  using encode_chars [of "CHR ''=''" v] reserved_eq by auto

lemma split_on_concat:
  assumes "d \<notin> set seg" "\<And>f. f \<in> set fs \<Longrightarrow> d \<notin> set (g f)"
  shows "split_on d (seg @ concat (map (\<lambda>f. d # g f) fs)) = seg # map g fs"
  using assms
proof (induction fs arbitrary: seg)
  case Nil
  then show ?case by (simp add: split_on_no)
next
  case (Cons f fs)
  have "split_on d (seg @ d # (g f @ concat (map (\<lambda>f. d # g f) fs)))
          = seg # split_on d (g f @ concat (map (\<lambda>f. d # g f) fs))"
    by (rule split_on_append [OF Cons.prems(1)])
  also have "split_on d (g f @ concat (map (\<lambda>f. d # g f) fs)) = g f # map g fs"
    using Cons.prems(2) by (intro Cons.IH) auto
  finally show ?case by simp
qed

lemma field_segment_entry:
  "before_last (CHR ''='') (field_segment f) = fst f"
  "after_last (CHR ''='') (field_segment f) = Percent_encode (snd f)"
  unfolding field_segment_def
  using last_split_unique [OF encode_no_eq, of "fst f" "snd f"] by simp_all

lemma parse_create:
  assumes keys: "\<forall>f \<in> set m. fst f \<noteq> [] \<and> CHR ''&'' \<notin> set (fst f)"
    and len: "length (QueryString_create m) < npos"
  shows "QueryString_parse (QueryString_create m)
           = map (\<lambda>f. (fst f, Percent_decode (Percent_encode (snd f)))) m"
proof (cases m)
  case Nil
  then show ?thesis by (simp add: create_Nil QueryString_parse_def)
next
  case (Cons f fs)
  have na: "CHR ''&'' \<notin> set (field_segment h)" if "h \<in> set m" for h
    using keys that encode_no_amp [of "snd h"] by (simp add: field_segment_def)
  have "split_on (CHR ''&'') (QueryString_create m) = map field_segment m"
    unfolding Cons create_Cons
    using na by (subst split_on_concat) (simp_all add: Cons)
  then have "parse_segments (QueryString_create m)
               = map segment_entry (filter (\<lambda>seg. before_last (CHR ''='') seg \<noteq> []) (map field_segment m))"
    by (simp add: parse_segments_def)
  also have "filter (\<lambda>seg. before_last (CHR ''='') seg \<noteq> []) (map field_segment m) = map field_segment m"
    using keys by (simp add: filter_map o_def field_segment_entry)
  also have "map segment_entry (map field_segment m)
               = map (\<lambda>f. (fst f, Percent_decode (Percent_encode (snd f)))) m"
    by (simp add: segment_entry_def field_segment_entry)
  finally show ?thesis
    by (simp add: QueryString_parse_segments [OF len])
qed

section \<open>QueryString: the claims\<close>

lemma decode_c: "Percent_decode ''c'' = ''c''"
  by (simp add: Percent_decode_def decode_loop.simps)





text \<open>
  Claim C4, as amended: for a multimap whose keys are non-empty and contain no
  \<open>&\<close>, and whose values contain no percent sign, parsing the created query
  string gives back the entries of the multimap, as a multiset.  \<open>create\<close>
  writes the keys as they are, so a key with \<open>&\<close> in it is read back as two
  segments.
\<close>

theorem QueryString_parse_create:
  assumes "\<forall>f \<in> set m. fst f \<noteq> [] \<and> CHR ''&'' \<notin> set (fst f) \<and> CHR ''%'' \<notin> set (snd f)"
    and "length (QueryString_create m) < npos"
  shows "mset (QueryString_parse (QueryString_create m)) = mset m"
proof -
  have "QueryString_parse (QueryString_create m)
          = map (\<lambda>f. (fst f, Percent_decode (Percent_encode (snd f)))) m"
    using assms by (intro parse_create) auto
  also have "\<dots> = map (\<lambda>f. f) m"
    using assms(1) by (intro map_cong) (auto simp: decode_encode_no_percent)
  finally show ?thesis by simp
qed

theorem QueryString_parse_create_witness:
  "QueryString_create [(''k'', ''a b''), (''K'', ''x=1&y''), (''k'', [])] = ''k=a+b&K=x%3D%31%26y&k='' \<and>
   mset (QueryString_parse (QueryString_create [(''k'', ''a b''), (''K'', ''x=1&y''), (''k'', [])]))
     = mset [(''k'', ''a b''), (''K'', ''x=1&y''), (''k'', [])]"
proof -
  have c: "QueryString_create [(''k'', ''a b''), (''K'', ''x=1&y''), (''k'', [])] = ''k=a+b&K=x%3D%31%26y&k=''"
    by (simp add: QueryString_create_def Percent_encode_def reserved_def hex_chars_def)
  have l: "length (QueryString_create [(''k'', ''a b''), (''K'', ''x=1&y''), (''k'', [])]) < npos"
    unfolding c by (simp add: npos_def)
  have k: "\<forall>f \<in> set [(''k'', ''a b''), (''K'', ''x=1&y''), (''k'', [])].
             fst f \<noteq> [] \<and> CHR ''&'' \<notin> set (fst f) \<and> CHR ''%'' \<notin> set (snd f)"
    by simp
  show ?thesis
    using QueryString_parse_create [OF k l] c by simp
qed

text \<open>
  The claim as it was stated fails on the single entry with key \<open>a&b\<close> and value
  \<open>c\<close>: the key is non-empty, and the query string \<open>a&b=c\<close> is read back as the
  two entries \<open>a\<close> (empty value) and \<open>b\<close> (value \<open>c\<close>).
\<close>

theorem QueryString_parse_create_counterexample:
  "QueryString_create [(''a&b'', ''c'')] = ''a&b=c'' \<and>
   QueryString_parse (QueryString_create [(''a&b'', ''c'')]) = [(''a'', []), (''b'', ''c'')] \<and>
   mset (QueryString_parse (QueryString_create [(''a&b'', ''c'')])) \<noteq> mset [(''a&b'', ''c'')]"
proof -
  have c: "QueryString_create [(''a&b'', ''c'')] = ''a&b=c''"
    by (simp add: QueryString_create_def Percent_encode_def reserved_def)
  have l: "length ''a&b=c'' < npos" by (simp add: npos_def)
  have p: "QueryString_parse ''a&b=c'' = [(''a'', []), (''b'', ''c'')]"
    unfolding QueryString_parse_segments [OF l]
    by (simp add: parse_segments_def segment_entry_def before_last_def after_last_def decode_c decode_Nil)
  show ?thesis unfolding c p by simp
qed

section \<open>Searching, lines and the header block\<close>

lemma find_char_end: "\<not> pos < length s \<Longrightarrow> find_char s ch pos = npos"
  by (subst find_char.simps) simp

lemma find_char_hit: "pos < length s \<Longrightarrow> s ! pos = ch \<Longrightarrow> find_char s ch pos = pos"
  by (subst find_char.simps) simp

lemma find_char_miss:
  "pos < length s \<Longrightarrow> s ! pos \<noteq> ch \<Longrightarrow> find_char s ch pos = find_char s ch (pos + 1)"
  by (subst find_char.simps) simp

lemma find_char_drop:
  "find_char s ch pos =
     (if ch \<in> set (drop pos s) then pos + length (takeWhile (\<lambda>c. c \<noteq> ch) (drop pos s)) else npos)"
proof (induction "length s - pos" arbitrary: pos rule: less_induct)
  case less
  show ?case
  proof (cases "pos < length s")
    case False
    then show ?thesis by (simp add: find_char_end)
  next
    case True
    have d: "drop pos s = s ! pos # drop (pos + 1) s"
      using True by (simp add: Cons_nth_drop_Suc)
    show ?thesis
    proof (cases "s ! pos = ch")
      case True
      then show ?thesis using \<open>pos < length s\<close> d by (simp add: find_char_hit)
    next
      case False
      have m: "length s - (pos + 1) < length s - pos" using True by simp
      show ?thesis
        unfolding find_char_miss [OF True False] less.hyps [OF m] d
        using False by simp
    qed
  qed
qed

lemma find_char_0:
  "find_char s ch 0 = (if ch \<in> set s then length (takeWhile (\<lambda>c. c \<noteq> ch) s) else npos)"
  using find_char_drop [of s ch 0] by simp

lemma takeWhile_less:
  "ch \<in> set s \<Longrightarrow> length (takeWhile (\<lambda>c. c \<noteq> ch) s) < length s"
  by (induction s) auto

lemma split_first:
  "ch \<in> set s \<Longrightarrow> s = takeWhile (\<lambda>c. c \<noteq> ch) s @ ch # after_first ch s"
  unfolding after_first_def by (induction s) auto

lemma after_first_drop:
  "ch \<in> set s \<Longrightarrow> after_first ch s = drop (length (takeWhile (\<lambda>c. c \<noteq> ch) s) + 1) s"
  unfolding after_first_def by (induction s) auto

lemma getline_not_good: "\<not> good stream \<Longrightarrow> getline stream line = (stream, line)"
  by (simp add: getline_def)

lemma getline_line:
  assumes "CHR 0x0A \<notin> set l"
  shows "getline \<lparr>pending = l @ CHR 0x0A # rest, good = True\<rparr> line = (\<lparr>pending = rest, good = True\<rparr>, l)"
proof -
  have "takeWhile (\<lambda>c. c \<noteq> CHR 0x0A) (l @ CHR 0x0A # rest) = l"
    using assms by (subst takeWhile_append2) auto
  moreover have "dropWhile (\<lambda>c. c \<noteq> CHR 0x0A) (l @ CHR 0x0A # rest) = CHR 0x0A # rest"
    using assms by (subst dropWhile_append2) auto
  ultimately show ?thesis by (simp add: getline_def)
qed

lemma getline_last:
  assumes "CHR 0x0A \<notin> set l"
  shows "getline \<lparr>pending = l, good = True\<rparr> line = (\<lparr>pending = [], good = False\<rparr>, l)"
  using assms by (simp add: getline_def)

lemma split_on_not_Nil: "split_on d s \<noteq> []"
  by (induction s) (auto split: list.splits)

lemma split_on_no_sep: "l \<in> set (split_on d s) \<Longrightarrow> d \<notin> set l"
proof (induction s arbitrary: l)
  case Nil
  then show ?case by simp
next
  case (Cons c s)
  show ?case
  proof (cases "c = d")
    case True
    then show ?thesis using Cons by auto
  next
    case False
    obtain seg segs where s: "split_on d s = seg # segs"
      using split_on_not_Nil [of d s] by (cases "split_on d s") auto
    then show ?thesis using Cons False by auto
  qed
qed

lemma join_lines_split: "join_lines (split_on (CHR 0x0A) s) = s"
proof (induction s)
  case Nil
  then show ?case by simp
next
  case (Cons c s)
  obtain seg segs where s: "split_on (CHR 0x0A) s = seg # segs"
    using split_on_not_Nil [of "CHR 0x0A" s] by (cases "split_on (CHR 0x0A) s") auto
  show ?case
  proof (cases "c = CHR 0x0A")
    case True
    then show ?thesis using Cons s by simp
  next
    case False
    then show ?thesis using Cons s by (cases segs) simp_all
  qed
qed

lemma istream_of_remaining: "istream_of p = remaining (split_on (CHR 0x0A) p)"
  by (simp add: istream_of_def remaining_def split_on_not_Nil join_lines_split)

lemma getline_remaining:
  assumes "CHR 0x0A \<notin> set l"
  shows "getline (remaining (l # ls)) line = (remaining ls, l)"
proof (cases ls)
  case Nil
  then show ?thesis using getline_last [OF assms] by (simp add: remaining_def)
next
  case (Cons a as)
  then show ?thesis using getline_line [OF assms] by (simp add: remaining_def)
qed

lemma getline_remaining_Nil: "getline (remaining []) line = (remaining [], line)"
  by (simp add: remaining_def getline_def)

lemma header_entry_field:
  assumes len: "length line < npos" and col: "CHR '':'' \<in> set line"
  shows "header_entry line (find_char line (CHR '':'') 0) res = res @ header_field line"
proof -
  define name where "name = takeWhile (\<lambda>c. c \<noteq> CHR '':'') line"
  define after where "after = after_first (CHR '':'') line"
  have line: "line = name @ CHR '':'' # after"
    unfolding name_def after_def by (rule split_first [OF col])
  have pe: "find_char line (CHR '':'') 0 = length name"
    using col by (simp add: find_char_0 name_def)
  have ll: "length line = length name + 1 + length after"
    using arg_cong [OF line, of length] by simp
  have l64: "length line < 2 ^ 64" using len npos_less by simp
  show ?thesis
  proof (cases after)
    case Nil
    then show ?thesis
      using ll by (simp add: header_entry_def header_field_def pe after_def [symmetric])
  next
    case (Cons a as)
    have nth: "line ! Suc (length name) = a"
      by (subst line) (simp add: Cons nth_append)
    define v where "v = (if a = CHR '' '' then as else after)"
    define vs where "vs = (if a = CHR '' '' then length name + 1 + 1 else length name + 1)"
    have dv: "drop vs line = v"
      by (subst line) (simp add: vs_def v_def Cons)
    have lv: "length line = vs + length v"
      using ll by (auto simp: vs_def v_def Cons)
    have hf: "header_field line = (if v = [] then [] else [(name, butlast v)])"
      by (simp add: header_field_def Let_def name_def [symmetric] after_def [symmetric] Cons v_def)
    have nm: "substr line 0 (length name) = name"
      by (subst line) (simp add: substr_def)
    have he: "header_entry line (length name) res
                = (if vs < length line
                   then res @ [(substr line 0 (length name),
                                substr line vs (size_sub (size_sub (length line) vs) 1))]
                   else res)"
      using ll by (simp add: header_entry_def Let_def nth vs_def Cons)
    show ?thesis
    proof (cases "v = []")
      case True
      then show ?thesis using lv by (simp add: pe he hf)
    next
      case False
      then have lt: "vs < length line" using lv by simp
      have s1: "size_sub (length line) vs = length v"
        using lt l64 lv by (simp add: size_sub_eq)
      have "Suc 0 \<le> length v" "length v < 2 ^ 64"
        using False l64 lv by (simp_all add: Suc_leI)
      then have s2: "size_sub (length v) (Suc 0) = length v - Suc 0"
        by (rule size_sub_eq)
      have "substr line vs (length v - 1) = butlast v"
        by (simp add: substr_def dv butlast_conv_take)
      then show ?thesis using False lt by (simp add: pe he hf nm s1 s2)
    qed
  qed
qed

lemma header_loop_no_colon:
  "CHR '':'' \<notin> set line \<Longrightarrow> header_loop stream line res = Some (stream, res)"
  by (subst header_loop.simps) (simp add: find_char_0)

lemma header_loop_colon:
  assumes "length line < npos" "CHR '':'' \<in> set line"
  shows "header_loop stream line res =
           header_loop (fst (getline stream line)) (snd (getline stream line)) (res @ header_field line)"
proof -
  have "find_char line (CHR '':'') 0 \<noteq> npos"
    using assms takeWhile_less [OF assms(2)] by (simp add: find_char_0)
  then show ?thesis
    by (subst header_loop.simps) (simp add: Let_def header_entry_field [OF assms] split: prod.splits)
qed

lemma header_loop_lines:
  assumes "\<forall>l \<in> set (line # ls). length l < npos \<and> CHR 0x0A \<notin> set l"
    and "\<exists>l \<in> set (line # ls). \<not> has_colon l"
  shows "header_loop (remaining ls) line res =
           Some (remaining (tl (dropWhile has_colon (line # ls))),
                 res @ concat (map header_field (takeWhile has_colon (line # ls))))"
  using assms
proof (induction ls arbitrary: line res)
  case Nil
  then have "CHR '':'' \<notin> set line" by (simp add: has_colon_def)
  then show ?case by (simp add: header_loop_no_colon has_colon_def)
next
  case (Cons l ls)
  show ?case
  proof (cases "has_colon line")
    case False
    then show ?thesis by (simp add: header_loop_no_colon has_colon_def)
  next
    case True
    have c: "CHR '':'' \<in> set line" using True by (simp add: has_colon_def)
    have len: "length line < npos" using Cons.prems(1) by simp
    have nl: "CHR 0x0A \<notin> set l" using Cons.prems(1) by simp
    have g: "getline (remaining (l # ls)) line = (remaining ls, l)"
      by (rule getline_remaining [OF nl])
    have ih: "header_loop (remaining ls) l (res @ header_field line) =
                Some (remaining (tl (dropWhile has_colon (l # ls))),
                      (res @ header_field line) @ concat (map header_field (takeWhile has_colon (l # ls))))"
      using Cons.prems True by (intro Cons.IH) auto
    show ?thesis
      unfolding header_loop_colon [OF len c] g
      using ih True by simp
  qed
qed

lemma HttpHeader_parse_remaining_Nil: "HttpHeader_parse (remaining []) = Some (remaining [], [])"
  by (simp add: HttpHeader_parse_def getline_remaining_Nil header_loop_no_colon)

lemma HttpHeader_parse_remaining:
  assumes "\<forall>l \<in> set ls. length l < npos \<and> CHR 0x0A \<notin> set l"
    and "\<exists>l \<in> set ls. \<not> has_colon l"
  shows "HttpHeader_parse (remaining ls) =
           Some (remaining (tl (dropWhile has_colon ls)),
                 concat (map header_field (takeWhile has_colon ls)))"
proof -
  obtain l ls' where ls: "ls = l # ls'"
    using assms(2) by (cases ls) auto
  have nl: "CHR 0x0A \<notin> set l" using assms(1) ls by simp
  show ?thesis
    unfolding HttpHeader_parse_def ls getline_remaining [OF nl]
    using header_loop_lines [of l ls' "[]"] assms ls by simp
qed

section \<open>RequestMessage: the request line by its parts\<close>

lemma before_last_Cons:
  "before_last d (x # seg) = (if d \<in> set seg then x # before_last d seg else if x = d then [] else x # seg)"
proof (cases "d \<in> set seg")
  case True
  have "x # seg = (x # before_last d seg) @ d # after_last d seg"
    using last_split [OF True] by simp
  then have "before_last d (x # seg) = x # before_last d seg"
    using last_split_unique(1) [OF after_last_no, of d "x # before_last d seg" seg] by simp
  then show ?thesis using True by simp
next
  case False
  show ?thesis
  proof (cases "x = d")
    case True
    then show ?thesis using False last_split_unique(1) [of d seg "[]"] by simp
  next
    case False
    then show ?thesis using \<open>d \<notin> set seg\<close> by (simp add: before_last_none)
  qed
qed

lemma after_last_Cons:
  "after_last d (x # seg) = (if d \<in> set seg then after_last d seg else if x = d then seg else [])"
proof (cases "d \<in> set seg")
  case True
  have "x # seg = (x # before_last d seg) @ d # after_last d seg"
    using last_split [OF True] by simp
  then have "after_last d (x # seg) = after_last d seg"
    using last_split_unique(2) [OF after_last_no, of d "x # before_last d seg" seg] by simp
  then show ?thesis using True by simp
next
  case False
  show ?thesis
  proof (cases "x = d")
    case True
    then show ?thesis using False last_split_unique(2) [of d seg "[]"] by simp
  next
    case False
    then show ?thesis using \<open>d \<notin> set seg\<close> by (simp add: after_last_none)
  qed
qed

lemma target_loop_end: "\<not> i < length line \<Longrightarrow> target_loop line i q = (q, npos)"
  by (subst target_loop.simps) simp

lemma target_loop_query:
  "i < length line \<Longrightarrow> line ! i = CHR ''?'' \<Longrightarrow> i + 1 < length line \<Longrightarrow>
   target_loop line i q = target_loop line (i + 1) (i + 1)"
  by (subst target_loop.simps) simp

lemma target_loop_space:
  "i < length line \<Longrightarrow> line ! i = CHR '' '' \<Longrightarrow> target_loop line i q = (q, i)"
  by (subst target_loop.simps) simp

lemma target_loop_other:
  "i < length line \<Longrightarrow> \<not> (line ! i = CHR ''?'' \<and> i + 1 < length line) \<Longrightarrow> line ! i \<noteq> CHR '' '' \<Longrightarrow>
   target_loop line i q = target_loop line (i + 1) q"
  by (subst target_loop.simps) auto

lemma target_loop_no_space:
  "CHR '' '' \<notin> set (drop i line) \<Longrightarrow> snd (target_loop line i q) = npos"
proof (induction "length line - i" arbitrary: i q rule: less_induct)
  case less
  show ?case
  proof (cases "i < length line")
    case False
    then show ?thesis by (simp add: target_loop_end)
  next
    case True
    have d: "drop i line = line ! i # drop (i + 1) line"
      using True by (simp add: Cons_nth_drop_Suc)
    have ns: "line ! i \<noteq> CHR '' ''" "CHR '' '' \<notin> set (drop (i + 1) line)"
      using less.prems d by auto
    have m: "length line - (i + 1) < length line - i" using True by simp
    show ?thesis
    proof (cases "line ! i = CHR ''?'' \<and> i + 1 < length line")
      case True
      then show ?thesis
        using less.hyps [OF m ns(2)] \<open>i < length line\<close> by (simp add: target_loop_query)
    next
      case False
      show ?thesis
        unfolding target_loop_other [OF True False ns(1)] by (rule less.hyps [OF m ns(2)])
    qed
  qed
qed

lemma target_loop_space_found:
  assumes "CHR '' '' \<in> set (drop i line)"
  shows "target_loop line i q =
           (if CHR ''?'' \<in> set (takeWhile (\<lambda>c. c \<noteq> CHR '' '') (drop i line))
            then i + length (before_last (CHR ''?'') (takeWhile (\<lambda>c. c \<noteq> CHR '' '') (drop i line))) + 1
            else q,
            i + length (takeWhile (\<lambda>c. c \<noteq> CHR '' '') (drop i line)))"
  using assms
proof (induction "length line - i" arbitrary: i q rule: less_induct)
  case less
  have True: "i < length line" using less.prems by (cases "i < length line") auto
  have d: "drop i line = line ! i # drop (i + 1) line"
    using True by (simp add: Cons_nth_drop_Suc)
  have m: "length line - (i + 1) < length line - i" using True by simp
  show ?case
  proof (cases "line ! i = CHR '' ''")
    case True
    then show ?thesis using \<open>i < length line\<close> d by (simp add: target_loop_space)
  next
    case False
    then have sp: "CHR '' '' \<in> set (drop (i + 1) line)" using less.prems d by auto
    then have i1: "i + 1 < length line" by (cases "i + 1 < length line") auto
    show ?thesis
    proof (cases "line ! i = CHR ''?''")
      case True
      show ?thesis
        unfolding target_loop_query [OF \<open>i < length line\<close> True i1] less.hyps [OF m sp] d
        using True False by (simp add: before_last_Cons)
    next
      case q: False
      have nq: "\<not> (line ! i = CHR ''?'' \<and> i + 1 < length line)" using q by simp
      show ?thesis
        unfolding target_loop_other [OF \<open>i < length line\<close> nq False] less.hyps [OF m sp] d
        using q False by (simp add: before_last_Cons)
    qed
  qed
qed

lemma RequestMessage_parse_fields:
  assumes g: "getline stream0 [] = (stream, line)" and len: "length line < npos"
  shows "RequestMessage_parse stream0 out0 =
           (case request_line_fields line out0 of
              (ok, out) \<Rightarrow>
                if ok then
                  (case HttpHeader_parse stream of
                     None \<Rightarrow> None
                   | Some (stream', h) \<Rightarrow> Some (True, stream', out\<lparr>req_header := h\<rparr>))
                else Some (False, stream, out))"
proof (cases "CHR '' '' \<in> set line")
  case False
  then show ?thesis
    by (simp add: RequestMessage_parse_def g request_line_fields_def find_char_0)
next
  case True
  define meth where "meth = takeWhile (\<lambda>c. c \<noteq> CHR '' '') line"
  define r1 where "r1 = after_first (CHR '' '') line"
  define me where "me = length meth"
  have l64: "length line < 2 ^ 64" using len npos_less by simp
  have line: "line = meth @ CHR '' '' # r1"
    unfolding meth_def r1_def by (rule split_first [OF True])
  have ll: "length line = me + 1 + length r1"
    using arg_cong [OF line, of length] by (simp add: me_def)
  have fc: "find_char line (CHR '' '') 0 = me"
    using True by (simp add: find_char_0 me_def meth_def)
  have me_n: "me \<noteq> npos" using ll len by simp
  have m: "substr line 0 me = meth"
    by (subst line) (simp add: substr_def me_def)
  have d1: "drop (me + 1) line = r1"
    by (subst line) (simp add: me_def)
  show ?thesis
  proof (cases "CHR '' '' \<in> set r1")
    case False
    have "snd (target_loop line (me + 1) npos) = npos"
      by (rule target_loop_no_space) (use d1 False in simp)
    then obtain q where t: "target_loop line (me + 1) npos = (q, npos)"
      by (cases "target_loop line (me + 1) npos") auto
    show ?thesis
      using True False fc me_n m t
      by (simp add: RequestMessage_parse_def g request_line_fields_def Let_def
          meth_def [symmetric] r1_def [symmetric])
  next
    case sp2: True
    define target where "target = takeWhile (\<lambda>c. c \<noteq> CHR '' '') r1"
    define r2 where "r2 = after_first (CHR '' '') r1"
    define pqe where "pqe = me + 1 + length target"
    define qs where "qs = (if CHR ''?'' \<in> set target
                           then me + 1 + length (before_last (CHR ''?'') target) + 1 else npos)"
    have r1: "r1 = target @ CHR '' '' # r2"
      unfolding target_def r2_def by (rule split_first [OF sp2])
    have lr1: "length r1 = length target + 1 + length r2"
      using arg_cong [OF r1, of length] by simp
    have t: "target_loop line (me + 1) npos = (qs, pqe)"
      using target_loop_space_found [of "me + 1" line npos, unfolded d1, OF sp2]
      by (simp add: target_def [symmetric] qs_def pqe_def)
    have pqe_n: "pqe \<noteq> npos" using ll lr1 len by (simp add: pqe_def)
    have d2: "drop (pqe + 1) line = r2"
    proof -
      have "drop (pqe + 1) line = drop (length target + 1) (drop (me + 1) line)"
        by (simp add: pqe_def add.commute add.left_commute)
      then show ?thesis unfolding d1 by (subst (asm) r1) simp
    qed
    define out2 where "out2 = out0\<lparr>req_header := [], req_method := meth\<rparr>"
    define out3 where "out3 = (if CHR ''?'' \<in> set target
                        then out2\<lparr>req_path := before_last (CHR ''?'') target,
                                  req_query_string := after_last (CHR ''?'') target\<rparr>
                        else out2\<lparr>req_path := target\<rparr>)"
    have o3: "(if qs \<noteq> npos then
                 out2\<lparr>req_path := substr line (me + 1) (size_sub (size_sub qs me) 2),
                      req_query_string := substr line qs (size_sub pqe qs)\<rparr>
               else out2\<lparr>req_path := substr line (me + 1) (size_sub (size_sub pqe me) 1)\<rparr>) = out3"
    proof (cases "CHR ''?'' \<in> set target")
      case False
      have "size_sub pqe me = length target + 1"
        using ll lr1 l64 by (simp add: pqe_def size_sub_eq)
      moreover have "size_sub (length target + 1) 1 = length target"
        using ll lr1 l64 by (simp add: size_sub_eq)
      moreover have "substr line (me + 1) (length target) = target"
        unfolding substr_def d1 by (subst r1) simp
      ultimately show ?thesis using False by (simp add: qs_def out3_def)
    next
      case True
      define bl where "bl = before_last (CHR ''?'') target"
      define al where "al = after_last (CHR ''?'') target"
      have tg: "target = bl @ CHR ''?'' # al"
        unfolding bl_def al_def by (rule last_split [OF True])
      have lt: "length target = length bl + 1 + length al"
        using arg_cong [OF tg, of length] by simp
      have q: "qs = me + 1 + length bl + 1" using True by (simp add: qs_def bl_def)
      have qn: "qs \<noteq> npos" using q ll lr1 lt len by simp
      have "size_sub qs me = length bl + 2"
        using ll lr1 lt l64 by (simp add: q size_sub_eq)
      moreover have "size_sub (length bl + 2) 2 = length bl"
        using ll lr1 lt l64 by (simp add: size_sub_eq)
      moreover have "substr line (me + 1) (length bl) = bl"
        unfolding substr_def d1 by (subst r1, subst tg) simp
      moreover have "size_sub pqe qs = length al"
        using ll lr1 lt l64 by (simp add: q pqe_def size_sub_eq)
      moreover have "substr line qs (length al) = al"
      proof -
        have "drop qs line = drop (length bl + 1) (drop (me + 1) line)"
          by (simp add: q add.commute add.left_commute)
        also have "\<dots> = al @ CHR '' '' # r2"
          unfolding d1 by (subst r1, subst tg) simp
        finally show ?thesis by (simp add: substr_def)
      qed
      ultimately show ?thesis using True qn by (simp add: out3_def bl_def al_def)
    qed
    have pe: "find_char line (CHR ''/'') (pqe + 1)
                = (if CHR ''/'' \<in> set r2
                   then pqe + 1 + length (takeWhile (\<lambda>c. c \<noteq> CHR ''/'') r2) else npos)"
      by (simp only: find_char_drop d2)
    define tail where "tail = (\<lambda>protocol_end.
             if protocol_end \<noteq> npos then
               (if substr line (pqe + 1) (size_sub (size_sub protocol_end pqe) 1) \<noteq> ''HTTP''
                then Some (False, stream, out3)
                else
                  (let out4 = out3\<lparr>req_version := substr line (protocol_end + 1)
                                        (size_sub (size_sub (length line) protocol_end) 2)\<rparr>
                   in case HttpHeader_parse stream of
                        None \<Rightarrow> None
                      | Some (stream', h) \<Rightarrow> Some (True, stream', out4\<lparr>req_header := h\<rparr>)))
             else Some (False, stream, out3))"
    have head: "RequestMessage_parse stream0 out0 = tail (find_char line (CHR ''/'') (pqe + 1))"
      by (simp only: RequestMessage_parse_def g Let_def prod.case fc me_n m t pqe_n
          out2_def [symmetric] o3 if_True if_False not_False_eq_True simp_thms tail_def)
    have spec: "request_line_fields line out0 =
            (if CHR ''/'' \<notin> set r2 \<or> takeWhile (\<lambda>c. c \<noteq> CHR ''/'') r2 \<noteq> ''HTTP'' then (False, out3)
             else (True, out3\<lparr>req_version := butlast (after_first (CHR ''/'') r2)\<rparr>))"
      using True sp2
      by (simp add: request_line_fields_def Let_def meth_def [symmetric] r1_def [symmetric]
          target_def [symmetric] r2_def [symmetric] out2_def out3_def)
    show ?thesis
    proof (cases "CHR ''/'' \<in> set r2")
      case False
      then show ?thesis unfolding head pe spec by (simp add: tail_def)
    next
      case sl: True
      define proto where "proto = takeWhile (\<lambda>c. c \<noteq> CHR ''/'') r2"
      define r3 where "r3 = after_first (CHR ''/'') r2"
      have r2: "r2 = proto @ CHR ''/'' # r3"
        unfolding proto_def r3_def by (rule split_first [OF sl])
      have lr2: "length r2 = length proto + 1 + length r3"
        using arg_cong [OF r2, of length] by simp
      have pe': "find_char line (CHR ''/'') (pqe + 1) = pqe + 1 + length proto"
        unfolding pe proto_def using sl by simp
      have pen: "pqe + 1 + length proto \<noteq> npos"
        using ll lr1 lr2 len by (simp add: pqe_def)
      have "size_sub (pqe + 1 + length proto) pqe = length proto + 1"
        using ll lr1 lr2 l64 by (simp add: pqe_def size_sub_eq)
      moreover have "size_sub (length proto + 1) 1 = length proto"
        using ll lr1 lr2 l64 by (simp add: size_sub_eq)
      moreover have "substr line (pqe + 1) (length proto) = proto"
        unfolding substr_def d2 by (subst r2) simp
      ultimately have cmp: "substr line (pqe + 1) (size_sub (size_sub (pqe + 1 + length proto) pqe) 1) = proto"
        by simp
      have d3: "drop (pqe + 1 + length proto + 1) line = r3"
      proof -
        have "drop (pqe + 1 + length proto + 1) line = drop (length proto + 1) (drop (pqe + 1) line)"
          by (simp add: add.commute add.left_commute)
        then show ?thesis unfolding d2 by (subst (asm) r2) simp
      qed
      have l3: "length line = pqe + 1 + length proto + 1 + length r3"
        using ll lr1 lr2 by (simp add: pqe_def)
      have ver: "substr line (pqe + 1 + length proto + 1)
                   (size_sub (size_sub (length line) (pqe + 1 + length proto)) 2) = butlast r3"
      proof (cases "r3 = []")
        case True
        then show ?thesis unfolding substr_def d3 by simp
      next
        case False
        have "size_sub (length line) (pqe + 1 + length proto) = length r3 + 1"
          using l3 l64 by (simp add: size_sub_eq)
        moreover have "2 \<le> length r3 + 1" using False by (cases r3) auto
        then have "size_sub (length r3 + 1) 2 = length r3 - 1"
          using l3 l64 by (simp add: size_sub_eq)
        ultimately show ?thesis
          unfolding substr_def d3 by (simp add: butlast_conv_take)
      qed
      have "tail (pqe + 1 + length proto) =
              (if proto \<noteq> ''HTTP'' then Some (False, stream, out3)
               else case HttpHeader_parse stream of
                        None \<Rightarrow> None
                      | Some (stream', h) \<Rightarrow>
                          Some (True, stream', out3\<lparr>req_version := butlast r3, req_header := h\<rparr>))"
        by (simp only: tail_def pen cmp ver Let_def if_True not_False_eq_True simp_thms)
      then show ?thesis
        unfolding head spec pe'
        using sl by (simp add: proto_def [symmetric] r3_def [symmetric])
    qed
  qed
qed

section \<open>HttpHeader and RequestMessage: the claims\<close>

lemma getline_istream_of:
  "getline (istream_of p) line = (remaining (tl (split_on (CHR 0x0A) p)), hd (split_on (CHR 0x0A) p))"
proof -
  obtain l ls where s: "split_on (CHR 0x0A) p = l # ls"
    using split_on_not_Nil [of "CHR 0x0A" p] by (cases "split_on (CHR 0x0A) p") auto
  have "CHR 0x0A \<notin> set l"
    using split_on_no_sep [of l "CHR 0x0A" p] s by simp
  then show ?thesis
    by (simp add: istream_of_remaining s getline_remaining)
qed

lemma HttpHeader_parse_istream_of:
  assumes "\<forall>l \<in> set (split_on (CHR 0x0A) p). length l < npos"
    and "\<exists>l \<in> set (split_on (CHR 0x0A) p). \<not> has_colon l"
  shows "HttpHeader_parse (istream_of p) =
           Some (remaining (tl (dropWhile has_colon (split_on (CHR 0x0A) p))),
                 concat (map header_field (takeWhile has_colon (split_on (CHR 0x0A) p))))"
  unfolding istream_of_remaining
  using assms split_on_no_sep [of _ "CHR 0x0A" p]
  by (intro HttpHeader_parse_remaining) auto

lemma crlf_example_lines:
  "split_on (CHR 0x0A) (''Name: value'' @ [CHR 0x0D, CHR 0x0A, CHR 0x0D, CHR 0x0A])
     = [''Name: value'' @ [CHR 0x0D], [CHR 0x0D], []]"
  by simp

text \<open>
  Claim C8, as amended: on a stream that is good and has a line without a colon
  (the lines being the pieces of the input between line feeds, the piece after
  the last line feed included), \<open>HttpHeader::parse\<close> returns, and reports no
  failure.  It consumes the lines up to and including the first one without a
  colon and leaves the rest in the stream.  Each consumed line with a colon
  gives, in order, one entry whose name is the text before the first colon
  and whose value is the text after it, without one leading space and without
  its last character; a line on which nothing follows the colon and that
  space gives no entry.  The stream \<open>Name: value\<close> CRLF CRLF gives exactly the
  entry \<open>Name\<close> with value \<open>value\<close>.
\<close>

theorem HttpHeader_parse_lines:
  assumes "\<forall>l \<in> set (split_on (CHR 0x0A) p). length l < npos"
    and "\<exists>l \<in> set (split_on (CHR 0x0A) p). CHR '':'' \<notin> set l"
  shows "HttpHeader_parse (istream_of p) =
           Some (remaining (tl (dropWhile (\<lambda>l. CHR '':'' \<in> set l) (split_on (CHR 0x0A) p))),
                 concat (map header_field (takeWhile (\<lambda>l. CHR '':'' \<in> set l) (split_on (CHR 0x0A) p))))
         \<and> HttpHeader_parse (istream_of (''Name: value'' @ [CHR 0x0D, CHR 0x0A, CHR 0x0D, CHR 0x0A]))
             = Some (\<lparr>pending = [], good = True\<rparr>, [(''Name'', ''value'')])"
proof -
  have hc: "has_colon = (\<lambda>l. CHR '':'' \<in> set l)"
    by (simp add: has_colon_def fun_eq_iff)
  have a: "HttpHeader_parse (istream_of p) =
           Some (remaining (tl (dropWhile (\<lambda>l. CHR '':'' \<in> set l) (split_on (CHR 0x0A) p))),
                 concat (map header_field (takeWhile (\<lambda>l. CHR '':'' \<in> set l) (split_on (CHR 0x0A) p))))"
    using HttpHeader_parse_istream_of [of p] assms unfolding hc by simp
  have "HttpHeader_parse (istream_of (''Name: value'' @ [CHR 0x0D, CHR 0x0A, CHR 0x0D, CHR 0x0A]))
          = Some (remaining (tl (dropWhile has_colon [''Name: value'' @ [CHR 0x0D], [CHR 0x0D], []])),
                  concat (map header_field (takeWhile has_colon [''Name: value'' @ [CHR 0x0D], [CHR 0x0D], []])))"
    unfolding crlf_example_lines [symmetric]
    by (rule HttpHeader_parse_istream_of) (simp_all add: npos_def has_colon_def)
  then have b: "HttpHeader_parse (istream_of (''Name: value'' @ [CHR 0x0D, CHR 0x0A, CHR 0x0D, CHR 0x0A]))
             = Some (\<lparr>pending = [], good = True\<rparr>, [(''Name'', ''value'')])"
    by (simp add: has_colon_def remaining_def header_field_def after_first_def)
  show ?thesis using a b by simp
qed

theorem HttpHeader_parse_lines_witness:
  "HttpHeader_parse (istream_of (''A: 1'' @ [CHR 0x0D, CHR 0x0A] @ ''B:'' @ [CHR 0x0D, CHR 0x0A]
       @ ''C:2'' @ [CHR 0x0D, CHR 0x0A] @ ''D: '' @ [CHR 0x0A, CHR 0x0D, CHR 0x0A] @ ''body: x'' @ [CHR 0x0A] @ ''more''))
     = Some (\<lparr>pending = ''body: x'' @ [CHR 0x0A] @ ''more'', good = True\<rparr>,
             [(''A'', ''1''), (''B'', []), (''C'', ''2'')])"
proof -
  let ?p = "''A: 1'' @ [CHR 0x0D, CHR 0x0A] @ ''B:'' @ [CHR 0x0D, CHR 0x0A]
       @ ''C:2'' @ [CHR 0x0D, CHR 0x0A] @ ''D: '' @ [CHR 0x0A, CHR 0x0D, CHR 0x0A] @ ''body: x'' @ [CHR 0x0A] @ ''more''"
  have s: "split_on (CHR 0x0A) ?p
             = [''A: 1'' @ [CHR 0x0D], ''B:'' @ [CHR 0x0D], ''C:2'' @ [CHR 0x0D], ''D: '', [CHR 0x0D], ''body: x'', ''more'']"
    by simp
  have h1: "\<forall>l \<in> set (split_on (CHR 0x0A) ?p). length l < npos"
    unfolding s by (simp add: npos_def)
  have h2: "\<exists>l \<in> set (split_on (CHR 0x0A) ?p). CHR '':'' \<notin> set l"
    unfolding s by simp
  show ?thesis
    using HttpHeader_parse_lines [OF h1 h2, unfolded s]
    by (simp add: remaining_def header_field_def after_first_def)
qed

text \<open>
  The claim as it was stated fails on the stream \<open>Name:\<close> LF LF: the line \<open>Name:\<close>
  has a colon and is consumed, and no entry is emitted for it.
\<close>

theorem HttpHeader_parse_colon_without_entry_counterexample:
  "CHR '':'' \<in> set ''Name:'' \<and>
   HttpHeader_parse (istream_of (''Name:'' @ [CHR 0x0A, CHR 0x0A])) = Some (\<lparr>pending = [], good = True\<rparr>, [])"
proof -
  have s: "split_on (CHR 0x0A) (''Name:'' @ [CHR 0x0A, CHR 0x0A]) = [''Name:'', [], []]"
    by simp
  have "HttpHeader_parse (istream_of (''Name:'' @ [CHR 0x0A, CHR 0x0A]))
          = Some (remaining (tl (dropWhile has_colon [''Name:'', [], []])),
                  concat (map header_field (takeWhile has_colon [''Name:'', [], []])))"
    unfolding s [symmetric]
    by (rule HttpHeader_parse_istream_of) (simp_all add: npos_def has_colon_def)
  then show ?thesis
    by (simp add: has_colon_def remaining_def header_field_def after_first_def)
qed

lemma header_loop_returns_only:
  assumes "header_loop stream0 line0 res0 = Some y0"
  shows "good stream0 \<or> CHR '':'' \<notin> set line0 \<or> npos \<le> length line0"
proof (rule header_loop.raw_induct [OF _ assms])
  fix loop :: "istream \<Rightarrow> string \<Rightarrow> multimap \<Rightarrow> (istream \<times> multimap) option"
  fix stream line result y
  assume ih: "\<And>s l r y. loop s l r = Some y \<Longrightarrow> good s \<or> CHR '':'' \<notin> set l \<or> npos \<le> length l"
  assume step: "(let param_end = find_char line (CHR '':'') 0 in
      if param_end \<noteq> npos then
        (let result' = header_entry line param_end result in
         case getline stream line of (stream', line') \<Rightarrow> loop stream' line' result')
      else Some (stream, result)) = Some y"
  show "good stream \<or> CHR '':'' \<notin> set line \<or> npos \<le> length line"
  proof (rule ccontr)
    assume "\<not> (good stream \<or> CHR '':'' \<notin> set line \<or> npos \<le> length line)"
    then have ng: "\<not> good stream" and c: "CHR '':'' \<in> set line" and len: "length line < npos"
      by auto
    have g: "getline stream line = (stream, line)"
      using ng by (rule getline_not_good)
    have "find_char line (CHR '':'') 0 \<noteq> npos"
      using c len takeWhile_less [OF c] by (simp add: find_char_0)
    then have "loop stream line (header_entry line (find_char line (CHR '':'') 0) result) = Some y"
      using step by (simp add: Let_def g)
    then show False using ih ng c len by fastforce
  qed
qed

lemma header_loop_diverges:
  assumes "\<not> good stream" "CHR '':'' \<in> set line" "length line < npos"
  shows "header_loop stream line res = None"
proof (cases "header_loop stream line res")
  case None
  then show ?thesis .
next
  case (Some y)
  then show ?thesis using header_loop_returns_only [OF Some] assms by simp
qed

lemma HttpHeader_parse_unterminated: "HttpHeader_parse (istream_of ''A:b'') = None"
proof -
  have "getline (istream_of ''A:b'') [] = (\<lparr>pending = [], good = False\<rparr>, ''A:b'')"
    by (simp add: getline_def istream_of_def)
  then show ?thesis
    unfolding HttpHeader_parse_def
    by (simp add: header_loop_diverges npos_def)
qed

lemma request_line_fields_ok: "fst (request_line_fields line out0) \<longleftrightarrow> \<not> bad_request_line line"
  by (simp add: request_line_fields_def bad_request_line_def Let_def)

lemma RequestMessage_parse_first_line:
  assumes "length (first_line stream0) < npos"
  shows "RequestMessage_parse stream0 out0 =
           (if bad_request_line (first_line stream0)
            then Some (False, fst (getline stream0 []), snd (request_line_fields (first_line stream0) out0))
            else (case HttpHeader_parse (fst (getline stream0 [])) of
                    None \<Rightarrow> None
                  | Some (stream', h) \<Rightarrow>
                      Some (True, stream',
                            (snd (request_line_fields (first_line stream0) out0))\<lparr>req_header := h\<rparr>)))"
proof -
  obtain stream line where g: "getline stream0 [] = (stream, line)"
    by (cases "getline stream0 []") auto
  have fl: "first_line stream0 = line" by (simp add: first_line_def g)
  obtain ok out where r: "request_line_fields line out0 = (ok, out)"
    by (cases "request_line_fields line out0") auto
  have ok: "ok \<longleftrightarrow> \<not> bad_request_line line"
    using request_line_fields_ok [of line out0] r by simp
  have len: "length line < npos" using assms by (simp only: fl)
  show ?thesis
    unfolding fl g RequestMessage_parse_fields [OF g len, of out0] r
    by (simp add: ok split: option.splits)
qed

lemma RequestMessage_parse_istream_of:
  assumes "length (hd (split_on (CHR 0x0A) p)) < npos"
  shows "RequestMessage_parse (istream_of p) out0 =
           (case request_line_fields (hd (split_on (CHR 0x0A) p)) out0 of
              (ok, out) \<Rightarrow>
                if ok then
                  (case HttpHeader_parse (remaining (tl (split_on (CHR 0x0A) p))) of
                     None \<Rightarrow> None
                   | Some (stream', h) \<Rightarrow> Some (True, stream', out\<lparr>req_header := h\<rparr>))
                else Some (False, remaining (tl (split_on (CHR 0x0A) p)), out))"
  by (rule RequestMessage_parse_fields [OF getline_istream_of assms])

lemma badline_parse:
  "RequestMessage_parse (istream_of (''BADLINE'' @ [CHR 0x0D, CHR 0x0A])) out0
     = Some (False, \<lparr>pending = [], good = True\<rparr>, out0\<lparr>req_header := []\<rparr>)"
proof -
  have s: "split_on (CHR 0x0A) (''BADLINE'' @ [CHR 0x0D, CHR 0x0A]) = [''BADLINE'' @ [CHR 0x0D], []]"
    by simp
  have l: "length (hd (split_on (CHR 0x0A) (''BADLINE'' @ [CHR 0x0D, CHR 0x0A]))) < npos"
    unfolding s by (simp add: npos_def)
  show ?thesis
    unfolding RequestMessage_parse_istream_of [OF l] s
    by (simp add: request_line_fields_def remaining_def)
qed

text \<open>
  Claim C6: \<open>RequestMessage::parse\<close> returns \<open>false\<close> exactly when the request
  line has no space, or no second space, or no slash after the second space,
  or something other than \<open>HTTP\<close> between that space and the slash.  In every
  other case it goes on to the header block and returns \<open>true\<close> when that
  returns.  The line \<open>BADLINE\<close> followed by CRLF is refused.
\<close>

theorem RequestMessage_parse_fails_iff:
  assumes "length (first_line stream0) < npos"
  shows "((\<exists>s out. RequestMessage_parse stream0 out0 = Some (False, s, out))
            \<longleftrightarrow> bad_request_line (first_line stream0))
         \<and> (\<not> bad_request_line (first_line stream0) \<longrightarrow>
              RequestMessage_parse stream0 out0 =
                (case HttpHeader_parse (fst (getline stream0 [])) of
                   None \<Rightarrow> None
                 | Some (stream', h) \<Rightarrow>
                     Some (True, stream',
                           (snd (request_line_fields (first_line stream0) out0))\<lparr>req_header := h\<rparr>)))
         \<and> RequestMessage_parse (istream_of (''BADLINE'' @ [CHR 0x0D, CHR 0x0A])) out0
              = Some (False, \<lparr>pending = [], good = True\<rparr>, out0\<lparr>req_header := []\<rparr>)"
  using RequestMessage_parse_first_line [OF assms, of out0] badline_parse [of out0]
  by (auto split: option.splits)

lemma first_line_istream_of: "first_line (istream_of p) = hd (split_on (CHR 0x0A) p)"
  by (simp add: first_line_def getline_istream_of)

theorem RequestMessage_parse_fails_iff_witness:
  "bad_request_line (first_line (istream_of (''GET /x FTP/1.1'' @ [CHR 0x0D, CHR 0x0A]))) \<and>
   (\<exists>s out. RequestMessage_parse (istream_of (''GET /x FTP/1.1'' @ [CHR 0x0D, CHR 0x0A]))
               \<lparr>req_method = [], req_path = [], req_query_string = [], req_version = [], req_header = []\<rparr>
             = Some (False, s, out))"
proof -
  have f: "first_line (istream_of (''GET /x FTP/1.1'' @ [CHR 0x0D, CHR 0x0A])) = ''GET /x FTP/1.1'' @ [CHR 0x0D]"
    by (simp add: first_line_istream_of)
  have l: "length (first_line (istream_of (''GET /x FTP/1.1'' @ [CHR 0x0D, CHR 0x0A]))) < npos"
    unfolding f by (simp add: npos_def)
  have b: "bad_request_line (first_line (istream_of (''GET /x FTP/1.1'' @ [CHR 0x0D, CHR 0x0A])))"
    unfolding f by (simp add: bad_request_line_def after_first_def)
  show ?thesis
    using RequestMessage_parse_fails_iff [OF l] b by blast
qed

text \<open>
  Claim C10: whenever \<open>RequestMessage::parse\<close> returns \<open>false\<close>, the header
  multimap it hands back is empty, whatever it held before, and the version
  is the one passed in; the method, path and query string written before the
  failing point stay written, as the witness shows on a line that is refused
  at the protocol name.
\<close>

theorem RequestMessage_parse_failure_header_empty:
  assumes "RequestMessage_parse stream0 out0 = Some (False, s, out)"
  shows "req_header out = [] \<and> req_version out = req_version out0"
  using assms
  by (auto simp: RequestMessage_parse_def Let_def split: prod.splits if_splits option.splits)

lemma ftp_parse:
  "RequestMessage_parse (istream_of (''GET /x?q FTP/1.1'' @ [CHR 0x0D, CHR 0x0A]))
     \<lparr>req_method = ''m'', req_path = ''p'', req_query_string = ''old'', req_version = ''v'',
      req_header = [(''h'', ''h'')]\<rparr>
   = Some (False, \<lparr>pending = [], good = True\<rparr>,
           \<lparr>req_method = ''GET'', req_path = ''/x'', req_query_string = ''q'', req_version = ''v'',
            req_header = []\<rparr>)"
proof -
  have s: "split_on (CHR 0x0A) (''GET /x?q FTP/1.1'' @ [CHR 0x0D, CHR 0x0A]) = [''GET /x?q FTP/1.1'' @ [CHR 0x0D], []]"
    by simp
  have l: "length (hd (split_on (CHR 0x0A) (''GET /x?q FTP/1.1'' @ [CHR 0x0D, CHR 0x0A]))) < npos"
    unfolding s by (simp add: npos_def)
  show ?thesis
    unfolding RequestMessage_parse_istream_of [OF l] s
    by (simp add: request_line_fields_def remaining_def after_first_def before_last_def after_last_def)
qed

theorem RequestMessage_parse_failure_header_empty_witness:
  "RequestMessage_parse (istream_of (''GET /x?q FTP/1.1'' @ [CHR 0x0D, CHR 0x0A]))
     \<lparr>req_method = ''m'', req_path = ''p'', req_query_string = ''old'', req_version = ''v'',
      req_header = [(''h'', ''h'')]\<rparr>
   = Some (False, \<lparr>pending = [], good = True\<rparr>,
           \<lparr>req_method = ''GET'', req_path = ''/x'', req_query_string = ''q'', req_version = ''v'',
            req_header = []\<rparr>) \<and>
   req_header \<lparr>req_method = ''GET'', req_path = ''/x'', req_query_string = ''q'', req_version = ''v'',
            req_header = []\<rparr> = [] \<and>
   req_version \<lparr>req_method = ''GET'', req_path = ''/x'', req_query_string = ''q'', req_version = ''v'',
            req_header = []\<rparr> = ''v''"
  using RequestMessage_parse_failure_header_empty [OF ftp_parse] ftp_parse by simp

text \<open>
  What the loop over the target does with a request line
  \<open>method SP target SP rest\<close> whose target has one or more \<open>?\<close>: \<open>query_start\<close> is
  assigned at every \<open>?\<close> met before the space, so the target is cut at its last
  \<open>?\<close>. Whenever \<open>RequestMessage::parse\<close> returns, with either result, the path
  is the text of the target before its last \<open>?\<close> and the query string is the
  text after it; and it returns unless the line is well formed and the header
  block does not end.
\<close>

lemma RequestMessage_parse_last_query:
  assumes line: "first_line stream0 = method @ CHR '' '' # target @ CHR '' '' # rest"
    and m: "CHR '' '' \<notin> set method" and t: "CHR '' '' \<notin> set target"
    and q: "CHR ''?'' \<in> set target"
    and len: "length (first_line stream0) < npos"
  shows "(\<forall>ok s out. RequestMessage_parse stream0 out0 = Some (ok, s, out) \<longrightarrow>
            req_path out = before_last (CHR ''?'') target \<and>
            req_query_string out = after_last (CHR ''?'') target)
         \<and> (RequestMessage_parse stream0 out0 = None \<longleftrightarrow>
              \<not> bad_request_line (first_line stream0) \<and> HttpHeader_parse (fst (getline stream0 [])) = None)
         \<and> target = before_last (CHR ''?'') target @ CHR ''?'' # after_last (CHR ''?'') target
         \<and> CHR ''?'' \<notin> set (after_last (CHR ''?'') target)"
proof -
  have tw1: "takeWhile (\<lambda>c. c \<noteq> CHR '' '') (method @ CHR '' '' # target @ CHR '' '' # rest) = method"
    using m by (subst takeWhile_append2) auto
  have af1: "after_first (CHR '' '') (method @ CHR '' '' # target @ CHR '' '' # rest) = target @ CHR '' '' # rest"
    unfolding after_first_def using m by (subst dropWhile_append2) auto
  have tw2: "takeWhile (\<lambda>c. c \<noteq> CHR '' '') (target @ CHR '' '' # rest) = target"
    using t by (subst takeWhile_append2) auto
  have af2: "after_first (CHR '' '') (target @ CHR '' '' # rest) = rest"
    unfolding after_first_def using t by (subst dropWhile_append2) auto
  have f: "req_path (snd (request_line_fields (first_line stream0) out0)) = before_last (CHR ''?'') target
           \<and> req_query_string (snd (request_line_fields (first_line stream0) out0)) = after_last (CHR ''?'') target"
    unfolding line using q by (simp add: request_line_fields_def Let_def tw1 af1 tw2 af2)
  have p: "RequestMessage_parse stream0 out0 =
           (if bad_request_line (first_line stream0)
            then Some (False, fst (getline stream0 []), snd (request_line_fields (first_line stream0) out0))
            else (case HttpHeader_parse (fst (getline stream0 [])) of
                    None \<Rightarrow> None
                  | Some (stream', h) \<Rightarrow>
                      Some (True, stream',
                            (snd (request_line_fields (first_line stream0) out0))\<lparr>req_header := h\<rparr>)))"
    by (rule RequestMessage_parse_first_line [OF len])
  have a: "\<forall>ok s out. RequestMessage_parse stream0 out0 = Some (ok, s, out) \<longrightarrow>
            req_path out = before_last (CHR ''?'') target \<and>
            req_query_string out = after_last (CHR ''?'') target"
    unfolding p using f by (auto split: if_splits option.splits)
  have b: "RequestMessage_parse stream0 out0 = None \<longleftrightarrow>
              \<not> bad_request_line (first_line stream0) \<and> HttpHeader_parse (fst (getline stream0 [])) = None"
    unfolding p by (auto split: if_splits option.splits)
  show ?thesis
    using a b last_split [OF q] after_last_no [of "CHR ''?''" target] by blast
qed

lemma empty_header_block:
  "HttpHeader_parse (remaining [[CHR 0x0D], []]) = Some (\<lparr>pending = [], good = True\<rparr>, [])"
proof -
  have "HttpHeader_parse (remaining [[CHR 0x0D], []]) = Some (remaining [[]], [])"
    using HttpHeader_parse_remaining [of "[[CHR 0x0D], []]"]
    by (simp add: npos_def has_colon_def)
  also have "remaining [[]] = \<lparr>pending = [], good = True\<rparr>"
    by (simp add: remaining_def)
  finally show ?thesis .
qed

lemma two_queries_parse:
  "RequestMessage_parse (istream_of (''GET /a?b?c HTTP/1.1'' @ [CHR 0x0D, CHR 0x0A, CHR 0x0D, CHR 0x0A]))
     \<lparr>req_method = [], req_path = [], req_query_string = [], req_version = [], req_header = []\<rparr>
   = Some (True, \<lparr>pending = [], good = True\<rparr>,
           \<lparr>req_method = ''GET'', req_path = ''/a?b'', req_query_string = ''c'', req_version = ''1.1'',
            req_header = []\<rparr>)"
proof -
  have s: "split_on (CHR 0x0A) (''GET /a?b?c HTTP/1.1'' @ [CHR 0x0D, CHR 0x0A, CHR 0x0D, CHR 0x0A])
             = [''GET /a?b?c HTTP/1.1'' @ [CHR 0x0D], [CHR 0x0D], []]"
    by simp
  have l: "length (hd (split_on (CHR 0x0A) (''GET /a?b?c HTTP/1.1'' @ [CHR 0x0D, CHR 0x0A, CHR 0x0D, CHR 0x0A]))) < npos"
    unfolding s by (simp add: npos_def)
  show ?thesis
    unfolding RequestMessage_parse_istream_of [OF l] s
    by (simp add: request_line_fields_def empty_header_block after_first_def before_last_def after_last_def)
qed

lemma trailing_query_mark_parse:
  "RequestMessage_parse (istream_of (''GET /p?x=1? HTTP/1.1'' @ [CHR 0x0D, CHR 0x0A, CHR 0x0D, CHR 0x0A]))
     \<lparr>req_method = [], req_path = [], req_query_string = ''old'', req_version = [], req_header = []\<rparr>
   = Some (True, \<lparr>pending = [], good = True\<rparr>,
           \<lparr>req_method = ''GET'', req_path = ''/p?x=1'', req_query_string = [], req_version = ''1.1'',
            req_header = []\<rparr>)"
proof -
  have s: "split_on (CHR 0x0A) (''GET /p?x=1? HTTP/1.1'' @ [CHR 0x0D, CHR 0x0A, CHR 0x0D, CHR 0x0A])
             = [''GET /p?x=1? HTTP/1.1'' @ [CHR 0x0D], [CHR 0x0D], []]"
    by simp
  have l: "length (hd (split_on (CHR 0x0A) (''GET /p?x=1? HTTP/1.1'' @ [CHR 0x0D, CHR 0x0A, CHR 0x0D, CHR 0x0A]))) < npos"
    unfolding s by (simp add: npos_def)
  show ?thesis
    unfolding RequestMessage_parse_istream_of [OF l] s
    by (simp add: request_line_fields_def empty_header_block after_first_def before_last_def after_last_def)
qed

text \<open>
  Claim C3 does not hold of the code. The claim takes the first \<open>?\<close> of the
  target as the query separator. The loop starts \<open>query_start\<close> at \<open>npos\<close>, its
  value for no \<open>?\<close> met, and the code after the loop tests it against \<open>npos\<close>;
  but inside the loop it is assigned at every \<open>?\<close> before the space, without a
  test that it is still \<open>npos\<close>, so every later \<open>?\<close> moves the separator. On \<open>GET /a?b?c HTTP/1.1\<close> the claim gives the path
  \<open>/a\<close> and the query string \<open>b?c\<close>, the code the path \<open>/a?b\<close> and the query
  string \<open>c\<close>; on \<open>GET /p?x=1? HTTP/1.1\<close> the claim gives \<open>/p\<close> and \<open>x=1?\<close>, the
  code the path \<open>/p?x=1\<close> and an empty query string. Both calls return \<open>true\<close>.
\<close>

theorem RequestMessage_parse_second_query_mark:
  "RequestMessage_parse (istream_of (''GET /a?b?c HTTP/1.1'' @ [CHR 0x0D, CHR 0x0A, CHR 0x0D, CHR 0x0A]))
     \<lparr>req_method = [], req_path = [], req_query_string = [], req_version = [], req_header = []\<rparr>
   = Some (True, \<lparr>pending = [], good = True\<rparr>,
           \<lparr>req_method = ''GET'', req_path = ''/a?b'', req_query_string = ''c'', req_version = ''1.1'',
            req_header = []\<rparr>) \<and>
   takeWhile (\<lambda>c. c \<noteq> CHR ''?'') ''/a?b?c'' = ''/a'' \<and>
   after_first (CHR ''?'') ''/a?b?c'' = ''b?c'' \<and>
   RequestMessage_parse (istream_of (''GET /p?x=1? HTTP/1.1'' @ [CHR 0x0D, CHR 0x0A, CHR 0x0D, CHR 0x0A]))
     \<lparr>req_method = [], req_path = [], req_query_string = ''old'', req_version = [], req_header = []\<rparr>
   = Some (True, \<lparr>pending = [], good = True\<rparr>,
           \<lparr>req_method = ''GET'', req_path = ''/p?x=1'', req_query_string = [], req_version = ''1.1'',
            req_header = []\<rparr>) \<and>
   takeWhile (\<lambda>c. c \<noteq> CHR ''?'') ''/p?x=1?'' = ''/p'' \<and>
   after_first (CHR ''?'') ''/p?x=1?'' = ''x=1?''"
  using two_queries_parse trailing_query_mark_parse by (simp add: after_first_def)

section \<open>ResponseMessage: the status line by its parts\<close>

lemma size_sub_wrap:
  assumes "a < b" "b < 2 ^ 64"
  shows "size_sub a b = a + 2 ^ 64 - b"
proof -
  have "a + 2 ^ 64 - b < 2 ^ 64" using assms by simp
  then show ?thesis by (simp add: size_sub_def)
qed

lemma ResponseMessage_parse_fields:
  assumes g: "getline stream0 [] = (stream, line)" and len: "length line < npos"
  shows "ResponseMessage_parse stream0 out0 =
           (case response_line_fields line out0 of
              (ok, out) \<Rightarrow>
                if ok then
                  (case HttpHeader_parse stream of
                     None \<Rightarrow> None
                   | Some (stream', h) \<Rightarrow> Some (True, stream', out\<lparr>resp_header := h\<rparr>))
                else Some (False, stream, out))"
proof (cases "CHR '' '' \<in> set line")
  case False
  then show ?thesis
    by (simp add: ResponseMessage_parse_def g response_line_fields_def find_char_0)
next
  case True
  define pre where "pre = takeWhile (\<lambda>c. c \<noteq> CHR '' '') line"
  define aft where "aft = after_first (CHR '' '') line"
  define ve where "ve = length pre"
  have l64: "length line < 2 ^ 64" using len npos_less by simp
  have line: "line = pre @ CHR '' '' # aft"
    unfolding pre_def aft_def by (rule split_first [OF True])
  have ll: "length line = ve + 1 + length aft"
    using arg_cong [OF line, of length] by (simp add: ve_def)
  have fc: "find_char line (CHR '' '') 0 = ve"
    using True by (simp add: find_char_0 ve_def pre_def)
  have ve_n: "ve \<noteq> npos" using ll len by simp
  have d1: "drop (ve + 1) line = aft"
    by (subst line) (simp add: ve_def)
  have ver: "substr line 5 (size_sub ve 5) = (if 5 \<le> ve then take (ve - 5) (drop 5 line) else drop 5 line)"
  proof (cases "5 \<le> ve")
    case True
    have "ve < 2 ^ 64" using ll l64 by simp
    then show ?thesis using True by (simp add: substr_def size_sub_eq)
  next
    case False
    then have "size_sub ve 5 = ve + 2 ^ 64 - 5"
      by (intro size_sub_wrap) simp_all
    moreover have "length (drop 5 line) \<le> ve + 2 ^ 64 - 5"
      using l64 by simp
    ultimately show ?thesis using False by (simp add: substr_def)
  qed
  have st: "substr line (ve + 1) (size_sub (size_sub (length line) (ve + 1)) 1) = butlast aft"
    if "aft \<noteq> []"
  proof -
    have "size_sub (length line) (ve + 1) = length aft"
      using ll l64 by (simp add: size_sub_eq)
    moreover have "1 \<le> length aft" using that by (cases aft) auto
    then have "size_sub (length aft) 1 = length aft - 1"
      using ll l64 by (intro size_sub_eq) simp_all
    ultimately show ?thesis
      unfolding substr_def d1 by (simp add: butlast_conv_take)
  qed
  have lt: "ve + 1 < length line \<longleftrightarrow> aft \<noteq> []"
    using ll by auto
  define out1 where "out1 = out0\<lparr>resp_header := []\<rparr>"
  define out2 where "out2 = out1\<lparr>resp_version :=
                      (if 5 \<le> ve then take (ve - 5) (drop 5 line) else drop 5 line)\<rparr>"
  have spec: "response_line_fields line out0 =
                (if length line \<le> 5 then (False, out1)
                 else if aft = [] then (False, out2)
                 else (True, out2\<lparr>resp_status_code := butlast aft\<rparr>))"
    using True
    by (simp add: response_line_fields_def Let_def pre_def [symmetric] aft_def [symmetric]
        ve_def [symmetric] out1_def out2_def)
  have head: "ResponseMessage_parse stream0 out0 =
                (if 5 < length line then
                   (if ve + 1 < length line then
                      (case HttpHeader_parse stream of
                         None \<Rightarrow> None
                       | Some (stream', h) \<Rightarrow>
                           Some (True, stream',
                             out2\<lparr>resp_status_code := substr line (ve + 1)
                                   (size_sub (size_sub (length line) (ve + 1)) 1), resp_header := h\<rparr>))
                    else Some (False, stream, out2))
                 else Some (False, stream, out1))"
    by (simp only: ResponseMessage_parse_def g Let_def prod.case fc ve_n ver
        out1_def [symmetric] out2_def [symmetric] if_True not_False_eq_True simp_thms)
  show ?thesis
  proof (cases "aft = []")
    case True
    then show ?thesis unfolding head spec lt by (simp add: not_le)
  next
    case False
    show ?thesis unfolding head spec lt st [OF False] using False by (simp add: not_le)
  qed
qed

lemma ResponseMessage_parse_istream_of:
  assumes "length (hd (split_on (CHR 0x0A) p)) < npos"
  shows "ResponseMessage_parse (istream_of p) out0 =
           (case response_line_fields (hd (split_on (CHR 0x0A) p)) out0 of
              (ok, out) \<Rightarrow>
                if ok then
                  (case HttpHeader_parse (remaining (tl (split_on (CHR 0x0A) p))) of
                     None \<Rightarrow> None
                   | Some (stream', h) \<Rightarrow> Some (True, stream', out\<lparr>resp_header := h\<rparr>))
                else Some (False, remaining (tl (split_on (CHR 0x0A) p)), out))"
  by (rule ResponseMessage_parse_fields [OF getline_istream_of assms])

lemma HttpHeader_parse_empty_line:
  "HttpHeader_parse (remaining [[]]) = Some (\<lparr>pending = [], good = False\<rparr>, [])"
proof -
  have "HttpHeader_parse (remaining [[]]) = Some (remaining [], [])"
    using HttpHeader_parse_remaining [of "[[]]"] by (simp add: npos_def has_colon_def)
  also have "remaining [] = \<lparr>pending = [], good = False\<rparr>"
    by (simp add: remaining_def)
  finally show ?thesis .
qed

text \<open>
  Claim C7: \<open>ResponseMessage::parse\<close> fails exactly when the status line has no
  space, has 5 or fewer characters, or has nothing after the first space; on
  success the version is the text from offset 5 up to the first space and the
  status is the text after the first space without the last character of the
  line.  The conditions of failure and the status are as claimed (lemma
  \<open>ResponseMessage_parse_fields\<close>), and so is the version of \<open>HTTP/1.1 200 OK\<close>.
  The version is not, when the first space comes before offset 5: the line
  \<open>A B C D\<close> CR has its first space at offset 1, is accepted, and gets the
  version \<open>D\<close> CR with a space before it, the whole rest of the line from offset 5.
\<close>

theorem ResponseMessage_parse_early_space:
  "ResponseMessage_parse (istream_of (''A B C D'' @ [CHR 0x0D, CHR 0x0A]))
     \<lparr>resp_version = [], resp_status_code = [], resp_header = []\<rparr>
   = Some (True, \<lparr>pending = [], good = False\<rparr>,
           \<lparr>resp_version = '' D'' @ [CHR 0x0D], resp_status_code = ''B C D'', resp_header = []\<rparr>) \<and>
   find_char (''A B C D'' @ [CHR 0x0D]) (CHR '' '') 0 = 1 \<and>
   ResponseMessage_parse (istream_of (''HTTP/1.1 200 OK'' @ [CHR 0x0D, CHR 0x0A]))
     \<lparr>resp_version = [], resp_status_code = [], resp_header = []\<rparr>
   = Some (True, \<lparr>pending = [], good = False\<rparr>,
           \<lparr>resp_version = ''1.1'', resp_status_code = ''200 OK'', resp_header = []\<rparr>)"
proof -
  have s: "split_on (CHR 0x0A) (''A B C D'' @ [CHR 0x0D, CHR 0x0A]) = [''A B C D'' @ [CHR 0x0D], []]"
    by simp
  have l: "length (hd (split_on (CHR 0x0A) (''A B C D'' @ [CHR 0x0D, CHR 0x0A]))) < npos"
    unfolding s by (simp add: npos_def)
  have a: "ResponseMessage_parse (istream_of (''A B C D'' @ [CHR 0x0D, CHR 0x0A]))
     \<lparr>resp_version = [], resp_status_code = [], resp_header = []\<rparr>
   = Some (True, \<lparr>pending = [], good = False\<rparr>,
           \<lparr>resp_version = '' D'' @ [CHR 0x0D], resp_status_code = ''B C D'', resp_header = []\<rparr>)"
    unfolding ResponseMessage_parse_istream_of [OF l] s
    by (simp add: response_line_fields_def HttpHeader_parse_empty_line after_first_def)
  have s2: "split_on (CHR 0x0A) (''HTTP/1.1 200 OK'' @ [CHR 0x0D, CHR 0x0A]) = [''HTTP/1.1 200 OK'' @ [CHR 0x0D], []]"
    by simp
  have l2: "length (hd (split_on (CHR 0x0A) (''HTTP/1.1 200 OK'' @ [CHR 0x0D, CHR 0x0A]))) < npos"
    unfolding s2 by (simp add: npos_def)
  have b: "ResponseMessage_parse (istream_of (''HTTP/1.1 200 OK'' @ [CHR 0x0D, CHR 0x0A]))
     \<lparr>resp_version = [], resp_status_code = [], resp_header = []\<rparr>
   = Some (True, \<lparr>pending = [], good = False\<rparr>,
           \<lparr>resp_version = ''1.1'', resp_status_code = ''200 OK'', resp_header = []\<rparr>)"
    unfolding ResponseMessage_parse_istream_of [OF l2] s2
    by (simp add: response_line_fields_def HttpHeader_parse_empty_line after_first_def)
  have c: "find_char (''A B C D'' @ [CHR 0x0D]) (CHR '' '') 0 = 1"
    by (simp add: find_char_0)
  show ?thesis using a b c by simp
qed

section \<open>ContentDisposition: the scanner on names, quotes and values\<close>

lemma cd_loop_end:
  "\<not> c < length line \<Longrightarrow> cd_loop line c ps pe vs res = (ps, pe, vs, res)"
  by (subst cd_loop.simps) simp

lemma cd_loop_name_semi:
  "c < length line \<Longrightarrow> ps \<noteq> npos \<Longrightarrow> line ! c = CHR '';'' \<Longrightarrow>
   cd_loop line c ps npos vs res =
     cd_loop line (c + 1) npos npos vs (res @ [(substr line ps (size_sub c ps), [])])"
  by (subst cd_loop.simps) simp

lemma cd_loop_name_eq:
  "c < length line \<Longrightarrow> ps \<noteq> npos \<Longrightarrow> line ! c = CHR ''='' \<Longrightarrow>
   cd_loop line c ps npos vs res = cd_loop line (c + 1) ps c vs res"
  by (subst cd_loop.simps) simp

lemma cd_loop_name_other:
  "c < length line \<Longrightarrow> ps \<noteq> npos \<Longrightarrow> line ! c \<noteq> CHR '';'' \<Longrightarrow> line ! c \<noteq> CHR ''='' \<Longrightarrow>
   cd_loop line c ps npos vs res = cd_loop line (c + 1) ps npos vs res"
  by (subst cd_loop.simps) simp

lemma cd_loop_await_quote:
  "c < length line \<Longrightarrow> ps \<noteq> npos \<Longrightarrow> pe \<noteq> npos \<Longrightarrow> line ! c = CHR 0x22 \<Longrightarrow> c + 1 < length line \<Longrightarrow>
   cd_loop line c ps pe npos res = cd_loop line (c + 1) ps pe (c + 1) res"
  by (subst cd_loop.simps) simp

lemma cd_loop_await_other:
  "c < length line \<Longrightarrow> ps \<noteq> npos \<Longrightarrow> pe \<noteq> npos \<Longrightarrow>
   \<not> (line ! c = CHR 0x22 \<and> c + 1 < length line) \<Longrightarrow>
   cd_loop line c ps pe npos res = cd_loop line (c + 1) ps pe npos res"
  by (subst cd_loop.simps) auto

lemma cd_loop_value_quote:
  "c < length line \<Longrightarrow> ps \<noteq> npos \<Longrightarrow> pe \<noteq> npos \<Longrightarrow> vs \<noteq> npos \<Longrightarrow> line ! c = CHR 0x22 \<Longrightarrow>
   cd_loop line c ps pe vs res =
     cd_loop line (c + 1) npos npos npos
       (res @ [(substr line ps (size_sub pe ps), substr line vs (size_sub c vs))])"
  by (subst cd_loop.simps) simp

lemma cd_loop_value_other:
  "c < length line \<Longrightarrow> ps \<noteq> npos \<Longrightarrow> pe \<noteq> npos \<Longrightarrow> vs \<noteq> npos \<Longrightarrow> line ! c \<noteq> CHR 0x22 \<Longrightarrow>
   cd_loop line c ps pe vs res = cd_loop line (c + 1) ps pe vs res"
  by (subst cd_loop.simps) simp

lemma cd_loop_seek_start:
  "c < length line \<Longrightarrow> line ! c \<noteq> CHR '' '' \<Longrightarrow> line ! c \<noteq> CHR '';'' \<Longrightarrow>
   cd_loop line c npos pe vs res = cd_loop line (c + 1) c pe vs res"
  by (subst cd_loop.simps) simp

lemma cd_loop_seek_skip:
  "c < length line \<Longrightarrow> line ! c = CHR '' '' \<or> line ! c = CHR '';'' \<Longrightarrow>
   cd_loop line c npos pe vs res = cd_loop line (c + 1) npos pe vs res"
  by (subst cd_loop.simps) auto

lemma cd_example:
  "ContentDisposition_parse ''form-data; name=\"f\"; filename=\"a.txt\"''
     = [(''form-data'', []), (''name'', ''f''), (''filename'', ''a.txt'')]"
  by (simp add: ContentDisposition_parse_def cd_loop.simps npos_def substr_def size_sub_def)

text \<open>
  The loop and the scanner by states agree: from any index where the positions
  stand for the state, the loop followed by the code after it gives what the
  scanner gives on the rest of the line. The one place where they part is a
  quote at the last index while the opening quote is awaited: the loop does
  not open a value there, the scanner does, and neither emits anything.
\<close>

lemma ContentDisposition_parse_tail:
  "ContentDisposition_parse line = cd_tail line (cd_loop line 0 0 npos npos [])"
  by (simp add: ContentDisposition_parse_def cd_tail_def)

lemma cd_tail_finish:
  assumes len: "length line < npos" and rel: "cd_rel line (length line) (ps, pe, vs, res) (st, es)"
  shows "cd_tail line (ps, pe, vs, res) = cd_finish (st, es)"
proof (cases st)
  case Seek
  then show ?thesis using rel by (simp add: cd_rel_def cd_tail_def)
next
  case (In_name n)
  then have r: "res = es" "ps \<le> length line" "pe = npos" "n = drop ps line"
    using rel by (simp_all add: cd_rel_def)
  have "ps \<noteq> npos" using r(2) len by simp
  moreover have "substr line ps npos = drop ps line" using len by (simp add: substr_def)
  ultimately show ?thesis using r In_name by (simp add: cd_tail_def)
next
  case (Await n)
  then have "res = es" "pe < length line" using rel by (simp_all add: cd_rel_def)
  then show ?thesis using Await len by (simp add: cd_tail_def)
next
  case (In_value n v)
  then have "res = es" "pe < vs" "vs \<le> length line" using rel by (simp_all add: cd_rel_def)
  then show ?thesis using In_value len by (simp add: cd_tail_def)
qed

lemma cd_loop_scan:
  assumes len: "length line < npos"
  shows "c \<le> length line \<Longrightarrow> cd_rel line c (ps, pe, vs, res) (st, es) \<Longrightarrow>
         cd_tail line (cd_loop line c ps pe vs res) = cd_finish (foldl cd_next (st, es) (drop c line))"
proof (induction "length line - c" arbitrary: c ps pe vs res st es rule: less_induct)
  case less
  note cl = less.prems(1) and rel = less.prems(2)
  show ?case
  proof (cases "c < length line")
    case False
    then have c: "c = length line" using cl by simp
    show ?thesis
      using cd_tail_finish [OF len, of ps pe vs res st es] rel
      by (simp add: c cd_loop_end)
  next
    case True
    have l64: "length line < 2 ^ 64" using len npos_less by simp
    have m: "length line - (c + 1) < length line - c" using True by simp
    have cl1: "c + 1 \<le> length line" using True by simp
    have d: "drop c line = line ! c # drop (c + 1) line"
      using True by (simp add: Cons_nth_drop_Suc)
    have res: "res = es" using rel by (simp add: cd_rel_def)
    have ih: "cd_tail line (cd_loop line (c + 1) ps' pe' vs' res')
                = cd_finish (foldl cd_next (st', es') (drop (c + 1) line))"
      if "cd_rel line (c + 1) (ps', pe', vs', res') (st', es')" for ps' pe' vs' res' st' es'
      by (rule less.hyps [OF m cl1 that])
    show ?thesis
    proof (cases st)
      case Seek
      have p: "ps = npos" "pe = npos" "vs = npos" using rel Seek by (simp_all add: cd_rel_def)
      show ?thesis
      proof (cases "line ! c \<noteq> CHR '' '' \<and> line ! c \<noteq> CHR '';''")
        case True
        have "cd_loop line c npos npos npos res = cd_loop line (c + 1) c npos npos res"
          using True \<open>c < length line\<close> by (intro cd_loop_seek_start) simp_all
        moreover have "cd_rel line (c + 1) (c, npos, npos, res) (In_name [line ! c], es)"
          using res d by (simp add: cd_rel_def)
        ultimately show ?thesis
          using ih True by (simp add: p d Seek)
      next
        case False
        have "cd_loop line c npos npos npos res = cd_loop line (c + 1) npos npos npos res"
          using False \<open>c < length line\<close> by (intro cd_loop_seek_skip) auto
        moreover have "cd_rel line (c + 1) (npos, npos, npos, res) (Seek, es)"
          using res by (simp add: cd_rel_def)
        ultimately show ?thesis
          using ih False by (auto simp: p d Seek)
      qed
    next
      case (In_name n)
      have p: "ps \<le> c" "pe = npos" "vs = npos" "n = take (c - ps) (drop ps line)"
        using rel In_name by (simp_all add: cd_rel_def)
      have psn: "ps \<noteq> npos" using p(1) True len by simp
      have sub: "substr line ps (size_sub c ps) = n"
        using p(1,4) True l64 by (simp add: substr_def size_sub_eq)
      consider (semi) "line ! c = CHR '';''" | (eq) "line ! c = CHR ''=''"
        | (other) "line ! c \<noteq> CHR '';''" "line ! c \<noteq> CHR ''=''" by blast
      then show ?thesis
      proof cases
        case semi
        have "cd_loop line c ps npos npos res
                = cd_loop line (c + 1) npos npos npos (res @ [(substr line ps (size_sub c ps), [])])"
          by (rule cd_loop_name_semi [OF True psn semi])
        moreover have "cd_rel line (c + 1) (npos, npos, npos, res @ [(n, [])]) (Seek, es @ [(n, [])])"
          using res by (simp add: cd_rel_def)
        ultimately show ?thesis
          using ih semi by (simp add: p(2,3) d In_name sub)
      next
        case eq
        have "cd_loop line c ps npos npos res = cd_loop line (c + 1) ps c npos res"
          by (rule cd_loop_name_eq [OF True psn eq])
        moreover have "cd_rel line (c + 1) (ps, c, npos, res) (Await n, es)"
          using res p(1,4) by (simp add: cd_rel_def)
        ultimately show ?thesis
          using ih eq by (simp add: p(2,3) d In_name)
      next
        case other
        have "cd_loop line c ps npos npos res = cd_loop line (c + 1) ps npos npos res"
          by (rule cd_loop_name_other [OF True psn other])
        moreover have "cd_rel line (c + 1) (ps, npos, npos, res) (In_name (n @ [line ! c]), es)"
          using res p(1,4) take_drop_snoc [OF p(1) True] by (simp add: cd_rel_def)
        ultimately show ?thesis
          using ih other by (simp add: p(2,3) d In_name)
      qed
    next
      case (Await n)
      have p: "ps \<le> pe" "pe < c" "vs = npos" "n = take (pe - ps) (drop ps line)"
        using rel Await by (simp_all add: cd_rel_def)
      have psn: "ps \<noteq> npos" and pen: "pe \<noteq> npos" using p(1,2) True len by simp_all
      show ?thesis
      proof (cases "line ! c = CHR 0x22")
        case False
        have "cd_loop line c ps pe npos res = cd_loop line (c + 1) ps pe npos res"
          using False by (intro cd_loop_await_other [OF True psn pen]) simp
        moreover have "cd_rel line (c + 1) (ps, pe, npos, res) (Await n, es)"
          using res p by (simp add: cd_rel_def)
        ultimately show ?thesis
          using ih False by (simp add: p(3) d Await)
      next
        case q: True
        show ?thesis
        proof (cases "c + 1 < length line")
          case True
          have "cd_loop line c ps pe npos res = cd_loop line (c + 1) ps pe (c + 1) res"
            by (rule cd_loop_await_quote [OF \<open>c < length line\<close> psn pen q True])
          moreover have "cd_rel line (c + 1) (ps, pe, c + 1, res) (In_value n [], es)"
            using res p by (simp add: cd_rel_def)
          ultimately show ?thesis
            using ih q by (simp add: p(3) d Await)
        next
          case False
          then have e: "c + 1 = length line" using cl1 by simp
          have "cd_loop line c ps pe npos res = cd_loop line (c + 1) ps pe npos res"
            using False by (intro cd_loop_await_other [OF True psn pen]) simp
          also have "\<dots> = (ps, pe, npos, res)"
            using e by (simp add: cd_loop_end)
          finally have "cd_tail line (cd_loop line c ps pe npos res) = res"
            using pen by (simp add: cd_tail_def)
          moreover have "drop (c + 1) line = []" using e by simp
          ultimately show ?thesis
            using q res by (simp add: p(3) d Await)
        qed
      qed
    next
      case (In_value n v)
      have p: "ps \<le> pe" "pe < vs" "vs \<le> c" "n = take (pe - ps) (drop ps line)"
        "v = take (c - vs) (drop vs line)"
        using rel In_value by (simp_all add: cd_rel_def)
      have psn: "ps \<noteq> npos" and pen: "pe \<noteq> npos" and vsn: "vs \<noteq> npos"
        using p(1,2,3) True len by simp_all
      show ?thesis
      proof (cases "line ! c = CHR 0x22")
        case True
        have s1: "substr line ps (size_sub pe ps) = n"
          using p(1,2,3,4) \<open>c < length line\<close> l64 by (simp add: substr_def size_sub_eq)
        have s2: "substr line vs (size_sub c vs) = v"
          using p(3,5) \<open>c < length line\<close> l64 by (simp add: substr_def size_sub_eq)
        have "cd_loop line c ps pe vs res
                = cd_loop line (c + 1) npos npos npos
                    (res @ [(substr line ps (size_sub pe ps), substr line vs (size_sub c vs))])"
          by (rule cd_loop_value_quote [OF \<open>c < length line\<close> psn pen vsn True])
        moreover have "cd_rel line (c + 1) (npos, npos, npos, res @ [(n, v)]) (Seek, es @ [(n, v)])"
          using res by (simp add: cd_rel_def)
        ultimately show ?thesis
          using ih True by (simp add: d In_value s1 s2)
      next
        case False
        have "cd_loop line c ps pe vs res = cd_loop line (c + 1) ps pe vs res"
          by (rule cd_loop_value_other [OF True psn pen vsn False])
        moreover have "cd_rel line (c + 1) (ps, pe, vs, res) (In_value n (v @ [line ! c]), es)"
          using res p take_drop_snoc [OF p(3) True] by (simp add: cd_rel_def)
        ultimately show ?thesis
          using ih False by (simp add: d In_value)
      qed
    qed
  qed
qed

lemma ContentDisposition_parse_scan:
  assumes "length line < npos"
  shows "ContentDisposition_parse line = cd_finish (cd_scan line)"
proof -
  have "cd_rel line 0 (0, npos, npos, []) (In_name [], [])"
    by (simp add: cd_rel_def)
  then show ?thesis
    using cd_loop_scan [OF assms, of 0 0 npos npos "[]" "In_name []" "[]"]
    by (simp add: ContentDisposition_parse_tail cd_scan_def)
qed

text \<open>Runs of characters that leave the scanner in its state.\<close>

lemma cd_run_name:
  "CHR '';'' \<notin> set name \<Longrightarrow> CHR ''='' \<notin> set name \<Longrightarrow>
   foldl cd_next (In_name n, es) name = (In_name (n @ name), es)"
  by (induction name arbitrary: n) auto

lemma cd_run_seek:
  "set sp \<subseteq> {CHR '' '', CHR '';''} \<Longrightarrow> foldl cd_next (Seek, es) sp = (Seek, es)"
  by (induction sp) auto

lemma cd_run_await:
  "CHR 0x22 \<notin> set junk \<Longrightarrow> foldl cd_next (Await n, es) junk = (Await n, es)"
  by (induction junk) auto

lemma cd_run_value:
  "CHR 0x22 \<notin> set val \<Longrightarrow> foldl cd_next (In_value n v, es) val = (In_value n (v @ val), es)"
  by (induction val arbitrary: v) auto

lemma cd_scan_append: "cd_scan (a @ b) = foldl cd_next (cd_scan a) b"
  by (simp add: cd_scan_def)

lemma cd_start_name:
  assumes st: "cd_scan pre = (Seek, es) \<or> pre = [] \<and> sp = [] \<and> es = []"
    and sp: "set sp \<subseteq> {CHR '' '', CHR '';''}"
    and name: "name \<noteq> []" "hd name \<noteq> CHR '' ''" "CHR '';'' \<notin> set name" "CHR ''='' \<notin> set name"
  shows "cd_scan (pre @ sp @ name) = (In_name name, es)"
proof -
  obtain x xs where n: "name = x # xs" using name(1) by (cases name) auto
  have x: "x \<noteq> CHR '' ''" "x \<noteq> CHR '';''" "CHR '';'' \<notin> set xs" "CHR ''='' \<notin> set xs"
    using name n by auto
  from st show ?thesis
  proof
    assume s: "cd_scan pre = (Seek, es)"
    have "cd_scan (pre @ sp @ name) = foldl cd_next (foldl cd_next (foldl cd_next (Seek, es) sp) [x]) xs"
      by (simp add: cd_scan_append [of pre] s n)
    also have "\<dots> = (In_name (x # xs), es)"
      using x by (simp add: cd_run_seek [OF sp] cd_run_name)
    finally show ?thesis by (simp add: n)
  next
    assume e: "pre = [] \<and> sp = [] \<and> es = []"
    then show ?thesis
      using name by (simp add: cd_scan_def cd_run_name)
  qed
qed

text \<open>
  Claim C9, as amended. On a line shorter than \<open>npos\<close> \<open>ContentDisposition::parse\<close>
  is the scanner by states run over the line. Where the scanner reads a name,
  that is at the start of the line, or after a prefix that leaves it seeking a
  name and any run of spaces and semicolons: a bare name at the end of the
  line is emitted with an empty value after the entries of the prefix; the
  name followed by \<open>=\<close> and text with no quote, or with an opening quote and no
  closing one, adds no entry; and the text between \<open>=\<close> and the opening quote is
  left out of the entry that the closing quote emits. The qualification of the
  first clause is needed: after a prefix that leaves the scanner awaiting the
  opening quote, or inside a value, text without a quote adds no entry, so a
  bare name at the end of such a line is not emitted. The line
  \<open>form-data; name="f"; filename="a.txt"\<close> gives exactly the entries \<open>form-data\<close>
  with an empty value, \<open>name\<close> with the value \<open>f\<close> and \<open>filename\<close> with the value
  \<open>a.txt\<close>.
\<close>

theorem ContentDisposition_parse_scanner:
  assumes len: "length pre + length sp + length name + length junk + length val + 3 < npos"
    and sp: "set sp \<subseteq> {CHR '' '', CHR '';''}"
    and name: "name \<noteq> []" "hd name \<noteq> CHR '' ''" "CHR '';'' \<notin> set name" "CHR ''='' \<notin> set name"
    and junk: "CHR 0x22 \<notin> set junk"
    and val: "CHR 0x22 \<notin> set val"
  shows "ContentDisposition_parse pre = cd_finish (cd_scan pre) \<and>
         (cd_scan pre = (Seek, es) \<or> pre = [] \<and> sp = [] \<and> es = [] \<longrightarrow>
            ContentDisposition_parse (pre @ sp @ name) = es @ [(name, [])] \<and>
            ContentDisposition_parse (pre @ sp @ name @ CHR ''='' # junk) = es \<and>
            ContentDisposition_parse (pre @ sp @ name @ CHR ''='' # junk @ CHR 0x22 # val) = es \<and>
            ContentDisposition_parse (pre @ sp @ name @ CHR ''='' # junk @ CHR 0x22 # val @ [CHR 0x22])
              = es @ [(name, val)] \<and>
            cd_scan (pre @ sp @ name @ [CHR '';'']) = (Seek, es @ [(name, [])]) \<and>
            cd_scan (pre @ sp @ name @ CHR ''='' # junk @ CHR 0x22 # val @ [CHR 0x22])
              = (Seek, es @ [(name, val)])) \<and>
         (cd_scan pre = (Await n, es) \<longrightarrow> ContentDisposition_parse (pre @ junk) = es) \<and>
         (cd_scan pre = (In_value n v, es) \<longrightarrow> ContentDisposition_parse (pre @ val) = es) \<and>
         ContentDisposition_parse ''form-data; name=\"f\"; filename=\"a.txt\"''
           = [(''form-data'', []), (''name'', ''f''), (''filename'', ''a.txt'')]"
proof -
  have a: "ContentDisposition_parse pre = cd_finish (cd_scan pre)"
    using len by (intro ContentDisposition_parse_scan) simp
  have b: "ContentDisposition_parse (pre @ sp @ name) = es @ [(name, [])] \<and>
           ContentDisposition_parse (pre @ sp @ name @ CHR ''='' # junk) = es \<and>
           ContentDisposition_parse (pre @ sp @ name @ CHR ''='' # junk @ CHR 0x22 # val) = es \<and>
           ContentDisposition_parse (pre @ sp @ name @ CHR ''='' # junk @ CHR 0x22 # val @ [CHR 0x22])
             = es @ [(name, val)] \<and>
           cd_scan (pre @ sp @ name @ [CHR '';'']) = (Seek, es @ [(name, [])]) \<and>
           cd_scan (pre @ sp @ name @ CHR ''='' # junk @ CHR 0x22 # val @ [CHR 0x22])
             = (Seek, es @ [(name, val)])"
    if st: "cd_scan pre = (Seek, es) \<or> pre = [] \<and> sp = [] \<and> es = []"
  proof -
    have s: "cd_scan (pre @ sp @ name) = (In_name name, es)"
      by (rule cd_start_name [OF st sp name])
    have s1: "cd_scan ((pre @ sp @ name) @ CHR ''='' # junk) = (Await name, es)"
      by (simp only: cd_scan_append [of "pre @ sp @ name"] s) (simp add: cd_run_await [OF junk])
    have s2: "cd_scan ((pre @ sp @ name) @ CHR ''='' # junk @ CHR 0x22 # val) = (In_value name val, es)"
      using cd_run_value [OF val, of name "[]" es]
      by (simp only: cd_scan_append [of "pre @ sp @ name"] s) (simp add: cd_run_await [OF junk])
    have s3: "cd_scan ((pre @ sp @ name) @ CHR ''='' # junk @ CHR 0x22 # val @ [CHR 0x22])
                = (Seek, es @ [(name, val)])"
      using cd_run_value [OF val, of name "[]" es]
      by (simp only: cd_scan_append [of "pre @ sp @ name"] s) (simp add: cd_run_await [OF junk])
    have s4: "cd_scan ((pre @ sp @ name) @ [CHR '';'']) = (Seek, es @ [(name, [])])"
      by (simp only: cd_scan_append [of "pre @ sp @ name"] s) simp
    have l0: "length (pre @ sp @ name) < npos"
      and l1: "length ((pre @ sp @ name) @ CHR ''='' # junk) < npos"
      and l2: "length ((pre @ sp @ name) @ CHR ''='' # junk @ CHR 0x22 # val) < npos"
      and l3: "length ((pre @ sp @ name) @ CHR ''='' # junk @ CHR 0x22 # val @ [CHR 0x22]) < npos"
      using len by simp_all
    show ?thesis
      using ContentDisposition_parse_scan [OF l0] ContentDisposition_parse_scan [OF l1]
        ContentDisposition_parse_scan [OF l2] ContentDisposition_parse_scan [OF l3]
        s s1 s2 s3 s4
      by simp
  qed
  have c: "ContentDisposition_parse (pre @ junk) = es" if st: "cd_scan pre = (Await n, es)"
  proof -
    have "length (pre @ junk) < npos" using len by simp
    then show ?thesis
      using ContentDisposition_parse_scan [of "pre @ junk"]
      by (simp add: cd_scan_append st cd_run_await [OF junk])
  qed
  have d: "ContentDisposition_parse (pre @ val) = es" if st: "cd_scan pre = (In_value n v, es)"
  proof -
    have "length (pre @ val) < npos" using len by simp
    then show ?thesis
      using ContentDisposition_parse_scan [of "pre @ val"]
      by (simp add: cd_scan_append st cd_run_value [OF val])
  qed
  show ?thesis
    using a b c d cd_example by blast
qed

theorem ContentDisposition_parse_scanner_witness:
  "ContentDisposition_parse ''a=\"b\"; c'' = [(''a'', ''b''), (''c'', [])] \<and>
   ContentDisposition_parse ''form-data; name=\"f'' = [(''form-data'', [])] \<and>
   ContentDisposition_parse ''a=b; c=\"d\"'' = [(''a'', ''d'')] \<and>
   ContentDisposition_parse ''a=x; b'' = []"
proof -
  have 1: "ContentDisposition_parse ''a=\"b\"; c'' = [(''a'', ''b''), (''c'', [])]"
    using ContentDisposition_parse_scanner
      [of "''a=\"b\"''" "''; ''" "''c''" "[]" "[]" "[(''a'', ''b'')]"]
    by (simp add: npos_def cd_scan_def)
  have 2: "ContentDisposition_parse ''form-data; name=\"f'' = [(''form-data'', [])]"
    using ContentDisposition_parse_scanner
      [of "''form-data;''" "'' ''" "''name''" "[]" "''f''" "[(''form-data'', [])]"]
    by (simp add: npos_def cd_scan_def)
  have 3: "ContentDisposition_parse ''a=b; c=\"d\"'' = [(''a'', ''d'')]"
    using ContentDisposition_parse_scanner
      [of "[]" "[]" "''a''" "''b; c=''" "''d''" "[]"]
    by (simp add: npos_def cd_scan_def)
  have 4: "ContentDisposition_parse ''a=x; b'' = []"
    using ContentDisposition_parse_scanner
      [of "''a=''" "[]" "''n''" "''x; b''" "[]" "[]" "''a''"]
    by (simp add: npos_def cd_scan_def)
  show ?thesis using 1 2 3 4 by simp
qed

text \<open>
  The claim as it was stated, for any line, fails on \<open>a=x; b\<close>: the bare name \<open>b\<close>
  at the end of the line is followed by no \<open>;\<close> and no \<open>=\<close>, and it is not emitted,
  because after \<open>a=\<close> the scanner awaits an opening quote that never comes.
\<close>

theorem ContentDisposition_parse_late_name_counterexample:
  "ContentDisposition_parse ''a=x; b'' = []"
  by (simp add: ContentDisposition_parse_def cd_loop.simps npos_def substr_def size_sub_def)

section \<open>ScopeRunner: the counter\<close>

lemma long_wrap_id:
  assumes "- (2 ^ 63) \<le> x" "x < 2 ^ 63"
  shows "long_wrap x = x"
proof -
  have "0 \<le> x + 2 ^ 63" "x + 2 ^ 63 < 2 ^ 64" using assms by simp_all
  then have "(x + 2 ^ 63) mod 2 ^ 64 = x + 2 ^ 63" by (rule mod_pos_pos_trivial)
  then show ?thesis by (simp add: long_wrap_def)
qed

lemma filter_update_length:
  assumes "i < length xs"
  shows "int (length (filter P (xs[i := y])))
           = int (length (filter P xs)) - (if P (xs ! i) then 1 else 0) + (if P y then 1 else 0)"
  using assms
proof (induction xs arbitrary: i)
  case Nil
  then show ?case by simp
next
  case (Cons x xs)
  show ?case
  proof (cases i)
    case 0
    then show ?thesis by simp
  next
    case (Suc j)
    then have "j < length xs" using Cons.prems by simp
    from Cons.IH [OF this] show ?thesis by (auto simp: Suc split: if_splits)
  qed
qed

lemma filter_pos: "x \<in> set xs \<Longrightarrow> P x \<Longrightarrow> 0 < length (filter P xs)"
  by (induction xs) auto

lemma guards_le: "guards s \<le> length (tasks s)"
  by (simp add: guards_def)

lemma guards_pos: "i < length (tasks s) \<Longrightarrow> tasks s ! i = Holding \<Longrightarrow> 0 < guards s"
  unfolding guards_def by (rule filter_pos [of Holding]) (auto simp: in_set_conv_nth)

lemma guards_zero: "guards s = 0 \<longleftrightarrow> Holding \<notin> set (tasks s)"
  unfolding guards_def by (induction "tasks s" arbitrary: s) (auto simp: filter_empty_conv)

lemma step_outside: "\<not> i < length (tasks s) \<Longrightarrow> step s (i, a) = s"
  by (simp add: step_def)

lemma step_effect:
  assumes "i < length (tasks s)"
  obtains (same) "step s (i, a) = s"
  | (call_continue) "tasks s ! i = Idle" "a = Call_continue"
      "step s (i, a) = s\<lparr>tasks := (tasks s)[i := Continue_loop (count s)]\<rparr>"
  | (call_stop) "tasks s ! i = Idle" "a = Call_stop"
      "step s (i, a) = s\<lparr>tasks := (tasks s)[i := Stop_loop]\<rparr>"
  | (acquire) e sp where "tasks s ! i = Continue_loop e" "a = Step sp" "0 \<le> e" "count s = e"
      "step s (i, a) = s\<lparr>count := long_wrap (e + 1), tasks := (tasks s)[i := Holding]\<rparr>"
  | (retry) e sp where "tasks s ! i = Continue_loop e" "a = Step sp" "0 \<le> e"
      "step s (i, a) = s\<lparr>tasks := (tasks s)[i := Continue_loop (count s)]\<rparr>"
  | (null) e sp where "tasks s ! i = Continue_loop e" "a = Step sp" "e < 0"
      "step s (i, a) = s\<lparr>tasks := (tasks s)[i := Idle]\<rparr>"
  | (release) "tasks s ! i = Holding" "a = Release"
      "step s (i, a) = s\<lparr>count := long_wrap (count s - 1), tasks := (tasks s)[i := Idle]\<rparr>"
  | (close) sp where "tasks s ! i = Stop_loop" "a = Step sp" "count s = 0"
      "step s (i, a) = s\<lparr>count := - 1, tasks := (tasks s)[i := Idle]\<rparr>"
  | (stop_return) sp where "tasks s ! i = Stop_loop" "a = Step sp" "count s < 0"
      "step s (i, a) = s\<lparr>tasks := (tasks s)[i := Idle]\<rparr>"
proof (cases "tasks s ! i")
  case Idle
  show ?thesis
  proof (cases a)
    case Call_continue
    then show ?thesis using assms Idle by (intro call_continue) (simp_all add: step_def)
  next
    case Call_stop
    then show ?thesis using assms Idle by (intro call_stop) (simp_all add: step_def)
  next
    case (Step sp)
    then show ?thesis using assms Idle by (intro same) (simp add: step_def)
  next
    case Release
    then show ?thesis using assms Idle by (intro same) (simp add: step_def)
  qed
next
  case (Continue_loop e)
  show ?thesis
  proof (cases a)
    case (Step sp)
    show ?thesis
    proof (cases "0 \<le> e")
      case False
      then show ?thesis
        using assms Continue_loop Step by (intro null [of e sp]) (simp_all add: step_def)
    next
      case True
      show ?thesis
      proof (cases "count s = e \<and> \<not> sp")
        case True
        then show ?thesis
          using assms Continue_loop Step \<open>0 \<le> e\<close>
          by (intro acquire [of e sp]) (simp_all add: step_def compare_exchange_weak_def)
      next
        case False
        then show ?thesis
          using assms Continue_loop Step \<open>0 \<le> e\<close>
          by (intro retry [of e sp]) (auto simp: step_def compare_exchange_weak_def)
      qed
    qed
  next
    case Call_continue
    then show ?thesis using assms Continue_loop by (intro same) (simp add: step_def)
  next
    case Call_stop
    then show ?thesis using assms Continue_loop by (intro same) (simp add: step_def)
  next
    case Release
    then show ?thesis using assms Continue_loop by (intro same) (simp add: step_def)
  qed
next
  case Holding
  show ?thesis
  proof (cases a)
    case Release
    then show ?thesis using assms Holding by (intro release) (simp_all add: step_def)
  next
    case Call_continue
    then show ?thesis using assms Holding by (intro same) (simp add: step_def)
  next
    case Call_stop
    then show ?thesis using assms Holding by (intro same) (simp add: step_def)
  next
    case (Step sp)
    then show ?thesis using assms Holding by (intro same) (simp add: step_def)
  qed
next
  case Stop_loop
  show ?thesis
  proof (cases a)
    case (Step sp)
    consider (ok) "count s = 0 \<and> \<not> sp" | (neg) "count s < 0" | (wait) "\<not> (count s = 0 \<and> \<not> sp)" "0 \<le> count s"
      by linarith
    then show ?thesis
    proof cases
      case ok
      then show ?thesis
        using assms Stop_loop Step
        by (intro close [of sp]) (simp_all add: step_def compare_exchange_weak_def)
    next
      case neg
      then show ?thesis
        using assms Stop_loop Step
        by (intro stop_return [of sp]) (simp_all add: step_def compare_exchange_weak_def)
    next
      case wait
      then show ?thesis
        using assms Stop_loop Step
        by (intro same) (auto simp: step_def compare_exchange_weak_def)
    qed
  next
    case Call_continue
    then show ?thesis using assms Stop_loop by (intro same) (simp add: step_def)
  next
    case Call_stop
    then show ?thesis using assms Stop_loop by (intro same) (simp add: step_def)
  next
    case Release
    then show ?thesis using assms Stop_loop by (intro same) (simp add: step_def)
  qed
qed

lemma guards_update:
  assumes "i < length (tasks s)"
  shows "int (guards (s\<lparr>tasks := (tasks s)[i := y]\<rparr>))
           = int (guards s) - (if tasks s ! i = Holding then 1 else 0) + (if y = Holding then 1 else 0)"
  unfolding guards_def using filter_update_length [OF assms, of "\<lambda>p. p = Holding" y] by simp

lemma guards_count_update [simp]: "guards (s\<lparr>count := c\<rparr>) = guards s"
  by (simp add: guards_def)

lemma guards_count_tasks_update [simp]:
  "guards (s\<lparr>count := c, tasks := ts\<rparr>) = guards (s\<lparr>tasks := ts\<rparr>)"
  by (simp add: guards_def)

lemma guards_less:
  assumes "i < length (tasks s)" "tasks s ! i \<noteq> Holding"
  shows "guards s < length (tasks s)"
proof -
  have "int (guards (s\<lparr>tasks := (tasks s)[i := Holding]\<rparr>)) = int (guards s) + 1"
    using guards_update [OF assms(1), of Holding] assms(2) by simp
  moreover have "guards (s\<lparr>tasks := (tasks s)[i := Holding]\<rparr>) \<le> length (tasks s)"
    using guards_le [of "s\<lparr>tasks := (tasks s)[i := Holding]\<rparr>"] by simp
  ultimately show ?thesis by linarith
qed

lemma step_inv_pair:
  assumes inv: "runner_inv s"
  shows "runner_inv (step s (i, a))"
proof -
  have len: "int (length (tasks s)) < 2 ^ 63"
    and cg: "(count s = - 1 \<and> guards s = 0) \<or> count s = int (guards s)"
    using inv by (simp_all add: runner_inv_def)
  show ?thesis
  proof (cases "i < length (tasks s)")
    case False
    then show ?thesis using inv by (simp add: step_outside)
  next
    case True
    note gu = guards_update [OF True]
    from True show ?thesis
    proof (cases rule: step_effect [where a = a])
      case same
      then show ?thesis using inv by simp
    next
      case call_continue
      then show ?thesis using len cg gu [of "Continue_loop (count s)"]
        by (simp add: runner_inv_def)
    next
      case call_stop
      then show ?thesis using len cg gu [of Stop_loop]
        by (simp add: runner_inv_def)
    next
      case (acquire e sp)
      have c: "count s = int (guards s)" using cg acquire(3,4) by auto
      have "guards s < length (tasks s)"
        by (rule guards_less [OF True]) (simp add: acquire(1))
      then have "long_wrap (e + 1) = e + 1"
        using len c acquire(4) by (intro long_wrap_id) linarith+
      then show ?thesis using len c acquire gu [of Holding]
        by (simp add: runner_inv_def)
    next
      case (retry e sp)
      then show ?thesis using len cg gu [of "Continue_loop (count s)"]
        by (simp add: runner_inv_def)
    next
      case (null e sp)
      then show ?thesis using len cg gu [of Idle]
        by (simp add: runner_inv_def)
    next
      case release
      have p: "0 < guards s" by (rule guards_pos [OF True release(1)])
      then have c: "count s = int (guards s)" using cg by auto
      have "long_wrap (count s - 1) = count s - 1"
        using len c p guards_le [of s] by (intro long_wrap_id) linarith+
      then show ?thesis using len c p release gu [of Idle]
        by (simp add: runner_inv_def)
    next
      case (close sp)
      then have "guards s = 0" using cg by auto
      then show ?thesis using len close gu [of Idle]
        by (simp add: runner_inv_def)
    next
      case (stop_return sp)
      then show ?thesis using len cg gu [of Idle]
        by (simp add: runner_inv_def)
    qed
  qed
qed

lemma step_inv: "runner_inv s \<Longrightarrow> runner_inv (step s ia)"
  by (cases ia) (simp add: step_inv_pair)

lemma run_inv: "runner_inv s \<Longrightarrow> runner_inv (run s sched)"
  unfolding run_def by (induction sched arbitrary: s) (simp_all add: step_inv)

lemma init_inv: "int n < 2 ^ 63 \<Longrightarrow> runner_inv (init n)"
  by (simp add: runner_inv_def init_def guards_def)

lemma step_closed_pair:
  assumes inv: "runner_inv s" and closed: "count s = - 1"
  shows "count (step s (i, a)) = - 1"
proof -
  have g: "guards s = 0" using inv closed by (simp add: runner_inv_def)
  show ?thesis
  proof (cases "i < length (tasks s)")
    case False
    then show ?thesis using closed by (simp add: step_outside)
  next
    case True
    then show ?thesis
    proof (cases rule: step_effect [where a = a])
      case (acquire e sp)
      then show ?thesis using closed by simp
    next
      case release
      then show ?thesis using guards_pos [OF True release(1)] g by simp
    next
      case (close sp)
      then show ?thesis using closed by simp
    qed (simp_all add: closed)
  qed
qed

lemma step_closed: "runner_inv s \<Longrightarrow> count s = - 1 \<Longrightarrow> count (step s ia) = - 1"
  by (cases ia) (simp add: step_closed_pair)

lemma run_closed:
  "runner_inv s \<Longrightarrow> count s = - 1 \<Longrightarrow> count (run s sched) = - 1"
  unfolding run_def
  by (induction sched arbitrary: s) (simp_all add: step_inv step_closed)

lemma step_closes_pair:
  assumes inv: "runner_inv s" and "count s \<noteq> - 1" and "count (step s (i, a)) = - 1"
  shows "count s = 0 \<and> guards s = 0 \<and> (\<exists>sp. a = Step sp) \<and> tasks s ! i = Stop_loop"
proof -
  have len: "int (length (tasks s)) < 2 ^ 63"
    and c: "count s = int (guards s)"
    using inv assms(2) by (auto simp: runner_inv_def)
  show ?thesis
  proof (cases "i < length (tasks s)")
    case False
    then show ?thesis using assms(2,3) by (simp add: step_outside)
  next
    case True
    then show ?thesis
    proof (cases rule: step_effect [where a = a])
      case (acquire e sp)
      have "guards s < length (tasks s)"
        by (rule guards_less [OF True]) (simp add: acquire(1))
      then have "long_wrap (e + 1) = e + 1"
        using len c acquire(4) by (intro long_wrap_id) linarith+
      then show ?thesis using acquire assms(3) by simp
    next
      case release
      have p: "0 < guards s" by (rule guards_pos [OF True release(1)])
      have "long_wrap (count s - 1) = count s - 1"
        using len c p guards_le [of s] by (intro long_wrap_id) linarith+
      then show ?thesis using release assms(3) c p by simp
    next
      case (close sp)
      then show ?thesis using c by simp
    qed (use assms(2,3) in simp_all)
  qed
qed

lemma step_closes:
  assumes "runner_inv s" "count s \<noteq> - 1" "count (step s ia) = - 1"
  shows "count s = 0 \<and> guards s = 0 \<and> (\<exists>sp. snd ia = Step sp) \<and> tasks s ! fst ia = Stop_loop"
  using assms step_closes_pair [of s "fst ia" "snd ia"] by simp

lemma closed_continue_lock:
  assumes "count s = - 1" "i < length (tasks s)" "tasks s ! i = Idle"
  shows "tasks (step s (i, Call_continue)) ! i = Continue_loop (- 1)"
    and "tasks (step (step s (i, Call_continue)) (i, Step sp)) ! i = Idle"
    and "count (step (step s (i, Call_continue)) (i, Step sp)) = - 1"
  using assms by (simp_all add: step_def)

text \<open>
  Claim C5: in every state that any number of tasks (fewer than \<open>2 ^ 63\<close>) can
  reach from the fresh runner, the counter is non-negative or exactly \<open>-1\<close>;
  once it is \<open>-1\<close> it stays \<open>-1\<close> whatever runs afterwards and no task comes to
  hold a lock again; a \<open>continue_lock\<close> entered then reads \<open>-1\<close> and leaves with
  \<open>nullptr\<close> on its next turn; and a step that takes the counter to \<open>-1\<close> is a turn
  of \<open>stop\<close> taken when the counter is 0 and no lock is outstanding.
\<close>

theorem ScopeRunner_count:
  assumes "int n < 2 ^ 63"
  shows "(0 \<le> count (run (init n) sched) \<or> count (run (init n) sched) = - 1)
    \<and> (count (run (init n) sched) = - 1 \<longrightarrow>
          (\<forall>sched'. count (run (run (init n) sched) sched') = - 1
                     \<and> Holding \<notin> set (tasks (run (run (init n) sched) sched'))))
    \<and> (count (run (init n) sched) = - 1 \<longrightarrow>
          (\<forall>i sp. i < length (tasks (run (init n) sched)) \<and> tasks (run (init n) sched) ! i = Idle \<longrightarrow>
             tasks (step (run (init n) sched) (i, Call_continue)) ! i = Continue_loop (- 1) \<and>
             tasks (step (step (run (init n) sched) (i, Call_continue)) (i, Step sp)) ! i = Idle))
    \<and> (\<forall>ia. count (run (init n) sched) \<noteq> - 1 \<and> count (step (run (init n) sched) ia) = - 1 \<longrightarrow>
          count (run (init n) sched) = 0 \<and> guards (run (init n) sched) = 0 \<and>
          (\<exists>sp. snd ia = Step sp) \<and> tasks (run (init n) sched) ! fst ia = Stop_loop)"
proof -
  define s where "s = run (init n) sched"
  have inv: "runner_inv s"
    unfolding s_def by (intro run_inv init_inv assms)
  have a: "0 \<le> count s \<or> count s = - 1"
    using inv by (auto simp: runner_inv_def)
  have b: "count (run s sched') = - 1 \<and> Holding \<notin> set (tasks (run s sched'))"
    if "count s = - 1" for sched'
  proof -
    have c: "count (run s sched') = - 1" by (rule run_closed [OF inv that])
    have "runner_inv (run s sched')" by (rule run_inv [OF inv])
    then have "guards (run s sched') = 0" using c by (simp add: runner_inv_def)
    then show ?thesis using c by (simp add: guards_zero)
  qed
  have c: "tasks (step s (i, Call_continue)) ! i = Continue_loop (- 1) \<and>
           tasks (step (step s (i, Call_continue)) (i, Step sp)) ! i = Idle"
    if "count s = - 1" "i < length (tasks s)" "tasks s ! i = Idle" for i sp
    using closed_continue_lock [OF that] by simp
  have d: "count s = 0 \<and> guards s = 0 \<and> (\<exists>sp. snd ia = Step sp) \<and> tasks s ! fst ia = Stop_loop"
    if "count s \<noteq> - 1" "count (step s ia) = - 1" for ia
    by (rule step_closes [OF inv that])
  show ?thesis
    unfolding s_def [symmetric] using a b c d by blast
qed

lemma two_tasks_drained:
  "run (init 2) [(0, Call_continue), (0, Step False), (1, Call_stop), (1, Step False), (0, Release)]
     = \<lparr>count = 0, tasks = [Idle, Stop_loop]\<rparr>"
  by (simp add: run_def init_def step_def compare_exchange_weak_def long_wrap_def numeral_2_eq_2)

theorem ScopeRunner_count_witness:
  "count (run (init 2) [(0, Call_continue), (0, Step False), (1, Call_stop), (1, Step False), (0, Release)]) = 0 \<and>
   count (step (run (init 2) [(0, Call_continue), (0, Step False), (1, Call_stop), (1, Step False), (0, Release)])
           (1, Step False)) = - 1 \<and>
   guards (run (init 2) [(0, Call_continue), (0, Step False), (1, Call_stop), (1, Step False), (0, Release)]) = 0 \<and>
   tasks (run (init 2) [(0, Call_continue), (0, Step False), (1, Call_stop), (1, Step False), (0, Release)]) ! 1
     = Stop_loop"
proof -
  let ?s = "run (init 2) [(0, Call_continue), (0, Step False), (1, Call_stop), (1, Step False), (0, Release)]"
  have n: "int 2 < 2 ^ 63" by simp
  have c: "count ?s \<noteq> - 1 \<and> count (step ?s (1, Step False)) = - 1"
    unfolding two_tasks_drained by (simp add: step_def compare_exchange_weak_def)
  have "count ?s = 0 \<and> guards ?s = 0 \<and> (\<exists>sp. snd (1 :: nat, Step False) = Step sp)
          \<and> tasks ?s ! fst (1 :: nat, Step False) = Stop_loop"
    using ScopeRunner_count [OF n, of "[(0, Call_continue), (0, Step False), (1, Call_stop), (1, Step False), (0, Release)]"] c
    by blast
  then show ?thesis using c by simp
qed

end
